theory Spec2Isabelle
  imports Complex_Main "HOL-Library.Word" "HOL-Library.Sublist"
begin

unbundle bit_operations_syntax

section \<open>Values of the host platform\<close>

text \<open>
  The repository is TypeScript running in a browser (client) and on Node (server actions).
  A \<open>Uint8Array\<close> is a list of 8-bit words; a JavaScript string is a list of 16-bit code
  units. Exceptions are values of type \<open>error\<close>; a function that may throw returns
  \<open>error + 'a\<close> with \<open>Inl\<close> for the exception.
\<close>

type_synonym byte = "8 word"
type_synonym code_unit = "16 word"
type_synonym jsstring = "code_unit list"

text \<open>A number below 256 as a byte, a number below 65536 as a code unit.\<close>

definition byte_of :: "nat \<Rightarrow> byte" where
  "byte_of n = of_nat n"

definition unit_of :: "nat \<Rightarrow> code_unit" where
  "unit_of n = of_nat n"

text \<open>An ASCII literal as a JavaScript string.\<close>

definition js :: "string \<Rightarrow> jsstring" where
  "js s = map of_char s"

datatype action_code = BAD_REQUEST | NOT_FOUND | INTERNAL_SERVER_ERROR

datatype error =
    InvalidCharacterError   \<comment> \<open>DOMException of \<open>btoa\<close> and \<open>atob\<close>\<close>
  | DataError               \<comment> \<open>DOMException of \<open>crypto.subtle.importKey\<close>\<close>
  | InvalidAccessError      \<comment> \<open>DOMException: key not usable for the operation\<close>
  | OperationError          \<comment> \<open>DOMException of \<open>crypto.subtle.decrypt\<close>: tag does not verify\<close>
  | SyntaxError             \<comment> \<open>\<open>JSON.parse\<close>\<close>
  | TypeError               \<comment> \<open>property read on \<open>null\<close>\<close>
  | URIError                \<comment> \<open>\<open>encodeURIComponent\<close> on an unpaired surrogate\<close>
  | QuotaExceededError      \<comment> \<open>\<open>sessionStorage.setItem\<close>\<close>
  | SecurityError           \<comment> \<open>DOMException of the \<open>window.sessionStorage\<close> getter\<close>
  | NoKeyAvailable          \<comment> \<open>\<open>new Error("No key available for sharing")\<close>\<close>
  | DatabaseError           \<comment> \<open>thrown by the Prisma client\<close>
  | ActionInputError        \<comment> \<open>the action's input does not fit its schema\<close>
  | ActionError action_code \<comment> \<open>\<open>new ActionError({code, message})\<close>\<close>

subsection \<open>\<open>btoa\<close> and \<open>atob\<close>\<close>

text \<open>
  \<open>String.fromCharCode(...bytes)\<close> gives the string whose code units are the bytes;
  \<open>s.split("").map(c => c.charCodeAt(0))\<close> stored into a \<open>Uint8Array\<close> keeps the low
  eight bits of every code unit.
\<close>

definition fromCharCode :: "byte list \<Rightarrow> jsstring" where
  "fromCharCode bs = map ucast bs"

definition charCodes :: "jsstring \<Rightarrow> byte list" where
  "charCodes s = map ucast s"

text \<open>The base64 alphabet: index to code unit and back.\<close>

definition b64_code :: "nat \<Rightarrow> nat" where
  "b64_code i =
     (if i < 26 then 65 + i
      else if i < 52 then 97 + (i - 26)
      else if i < 62 then 48 + (i - 52)
      else if i = 62 then 43 else 47)"

definition b64_index :: "nat \<Rightarrow> nat option" where
  "b64_index n =
     (if 65 \<le> n \<and> n \<le> 90 then Some (n - 65)
      else if 97 \<le> n \<and> n \<le> 122 then Some (n - 97 + 26)
      else if 48 \<le> n \<and> n \<le> 57 then Some (n - 48 + 52)
      else if n = 43 then Some 62
      else if n = 47 then Some 63
      else None)"

definition b64_char :: "nat \<Rightarrow> code_unit" where
  "b64_char i = unit_of (b64_code i)"

definition b64_value :: "code_unit \<Rightarrow> nat option" where
  "b64_value c = b64_index (unat c)"

text \<open>Three bytes are four sextets; a trailing group of one or two bytes is zero-padded.\<close>

fun b64_sextets :: "byte list \<Rightarrow> nat list" where
  "b64_sextets (a # b # c # rest) =
     (let n = (unat a * 256 + unat b) * 256 + unat c
      in [n div 64 div 64 div 64, n div 64 div 64 mod 64, n div 64 mod 64, n mod 64])
     @ b64_sextets rest"
| "b64_sextets [a, b] =
     (let n = (unat a * 256 + unat b) * 4 in [n div 64 div 64, n div 64 mod 64, n mod 64])"
| "b64_sextets [a] = (let n = unat a * 16 in [n div 64, n mod 64])"
| "b64_sextets [] = []"

text \<open>
  \<open>btoa\<close> throws on a code unit above \<open>0xFF\<close>; otherwise it is base64 with \<open>=\<close>
  padding to a multiple of four characters.
\<close>

definition btoa :: "jsstring \<Rightarrow> error + jsstring" where
  "btoa s =
     (if \<exists>c \<in> set s. 255 < c then Inl InvalidCharacterError
      else let bs = charCodes s
           in Inr (map b64_char (b64_sextets bs) @ replicate ((3 - length bs mod 3) mod 3) 61))"

text \<open>
  \<open>atob\<close> is the forgiving base64 decoder: ASCII whitespace is removed; if the length is
  then a multiple of four, one or two trailing \<open>=\<close> are removed; a length of 1 modulo 4
  or a character outside the alphabet fails; four sextets give three bytes, three give
  two (the last two bits dropped), two give one (the last four bits dropped).
\<close>

definition is_ascii_whitespace :: "code_unit \<Rightarrow> bool" where
  "is_ascii_whitespace c \<longleftrightarrow> c = 9 \<or> c = 10 \<or> c = 12 \<or> c = 13 \<or> c = 32"

definition strip_padding :: "jsstring \<Rightarrow> jsstring" where
  "strip_padding d =
     (if length d mod 4 = 0 \<and> d \<noteq> [] \<and> last d = 61
      then (if butlast d \<noteq> [] \<and> last (butlast d) = 61 then butlast (butlast d) else butlast d)
      else d)"

fun b64_bytes :: "nat list \<Rightarrow> byte list" where
  "b64_bytes (p # q # r # s # rest) =
     (let n = ((p * 64 + q) * 64 + r) * 64 + s
      in [byte_of (n div 256 div 256), byte_of (n div 256 mod 256), byte_of (n mod 256)])
     @ b64_bytes rest"
| "b64_bytes [p, q, r] =
     (let n = ((p * 64 + q) * 64 + r) div 4 in [byte_of (n div 256), byte_of (n mod 256)])"
| "b64_bytes [p, q] = [byte_of ((p * 64 + q) div 16)]"
| "b64_bytes _ = []"

definition atob :: "jsstring \<Rightarrow> error + jsstring" where
  "atob s =
     (let d = strip_padding (filter (\<lambda>c. \<not> is_ascii_whitespace c) s)
      in if length d mod 4 = 1 then Inl InvalidCharacterError
         else (case those (map b64_value d) of
                 None \<Rightarrow> Inl InvalidCharacterError
               | Some vs \<Rightarrow> Inr (fromCharCode (b64_bytes vs))))"

subsection \<open>\<open>TextEncoder\<close> and \<open>TextDecoder\<close>\<close>

text \<open>
  \<open>TextEncoder.encode\<close> first converts the string to scalar values, an unpaired
  surrogate becoming U+FFFD, and then writes UTF-8.
\<close>

definition is_high_surrogate :: "code_unit \<Rightarrow> bool" where
  "is_high_surrogate c \<longleftrightarrow> 55296 \<le> unat c \<and> unat c \<le> 56319"

definition is_low_surrogate :: "code_unit \<Rightarrow> bool" where
  "is_low_surrogate c \<longleftrightarrow> 56320 \<le> unat c \<and> unat c \<le> 57343"

fun to_scalars :: "jsstring \<Rightarrow> nat list" where
  "to_scalars [] = []"
| "to_scalars [c] = (if is_high_surrogate c \<or> is_low_surrogate c then [65533] else [unat c])"
| "to_scalars (c # d # rest) =
     (if is_high_surrogate c then
        (if is_low_surrogate d
         then (65536 + (unat c - 55296) * 1024 + (unat d - 56320)) # to_scalars rest
         else 65533 # to_scalars (d # rest))
      else if is_low_surrogate c then 65533 # to_scalars (d # rest)
      else unat c # to_scalars (d # rest))"

definition utf8_bytes :: "nat \<Rightarrow> byte list" where
  "utf8_bytes cp =
     (if cp < 128 then [byte_of cp]
      else if cp < 2048 then [byte_of (192 + cp div 64), byte_of (128 + cp mod 64)]
      else if cp < 65536 then
        [byte_of (224 + cp div 64 div 64), byte_of (128 + cp div 64 mod 64), byte_of (128 + cp mod 64)]
      else
        [byte_of (240 + cp div 64 div 64 div 64), byte_of (128 + cp div 64 div 64 mod 64),
         byte_of (128 + cp div 64 mod 64), byte_of (128 + cp mod 64)])"

definition TextEncoder_encode :: "jsstring \<Rightarrow> byte list" where
  "TextEncoder_encode s = concat (map utf8_bytes (to_scalars s))"

text \<open>
  \<open>new TextDecoder().decode\<close> is the UTF-8 decoder of the Encoding standard in
  replacement mode. A lead byte fixes the number of continuation bytes and the range
  allowed for the next one; a byte outside that range ends the sequence with U+FFFD and is
  read again as a first byte (\<open>utf8_first\<close>); input that ends inside a sequence gives
  U+FFFD. The arguments of \<open>utf8_decode\<close> are the code point so far, the continuation
  bytes still needed, and the bounds for the next byte.
\<close>

definition utf8_lead :: "nat \<Rightarrow> (nat \<times> nat \<times> nat \<times> nat) option" where
  "utf8_lead b =
     (if 194 \<le> b \<and> b \<le> 223 then Some (b mod 32, 1, 128, 191)
      else if 224 \<le> b \<and> b \<le> 239 then
        Some (b mod 16, 2, if b = 224 then 160 else 128, if b = 237 then 159 else 191)
      else if 240 \<le> b \<and> b \<le> 244 then
        Some (b mod 8, 3, if b = 240 then 144 else 128, if b = 244 then 143 else 191)
      else None)"

definition utf8_first :: "nat \<Rightarrow> nat list \<times> nat \<times> nat \<times> nat \<times> nat" where
  "utf8_first b =
     (if b < 128 then ([b], 0, 0, 128, 191)
      else (case utf8_lead b of
              None \<Rightarrow> ([65533], 0, 0, 128, 191)
            | Some st \<Rightarrow> ([], st)))"

fun utf8_decode :: "nat \<Rightarrow> nat \<Rightarrow> nat \<Rightarrow> nat \<Rightarrow> byte list \<Rightarrow> nat list" where
  "utf8_decode cp needed lower upper [] = (if needed = 0 then [] else [65533])"
| "utf8_decode cp needed lower upper (b # bs) =
     (if needed \<noteq> 0 \<and> lower \<le> unat b \<and> unat b \<le> upper then
        (if needed = 1 then (cp * 64 + unat b mod 64) # utf8_decode 0 0 128 191 bs
         else utf8_decode (cp * 64 + unat b mod 64) (needed - 1) 128 191 bs)
      else (case utf8_first (unat b) of
              (out, cp', n, lo, hi) \<Rightarrow>
                (if needed = 0 then [] else [65533]) @ out @ utf8_decode cp' n lo hi bs))"

definition from_scalars :: "nat list \<Rightarrow> jsstring" where
  "from_scalars cps =
     concat (map (\<lambda>cp. if cp < 65536 then [unit_of cp]
                        else [unit_of (55296 + (cp - 65536) div 1024),
                              unit_of (56320 + (cp - 65536) mod 1024)]) cps)"

text \<open>The decoder is created without \<open>ignoreBOM\<close>, so a leading U+FEFF is dropped.\<close>

definition strip_bom :: "nat list \<Rightarrow> nat list" where
  "strip_bom cps = (case cps of [] \<Rightarrow> [] | cp # rest \<Rightarrow> if cp = 65279 then rest else cps)"

definition TextDecoder_decode :: "byte list \<Rightarrow> jsstring" where
  "TextDecoder_decode bs = from_scalars (strip_bom (utf8_decode 0 0 128 191 bs))"

text \<open>A Unicode scalar value: a code point that is not a surrogate.\<close>

definition scalar_value :: "nat \<Rightarrow> bool" where
  "scalar_value cp \<longleftrightarrow> cp < 1114112 \<and> \<not> (55296 \<le> cp \<and> cp \<le> 57343)"

text \<open>\<open>String.prototype.isWellFormed\<close>: no unpaired surrogate.\<close>

fun isWellFormed :: "jsstring \<Rightarrow> bool" where
  "isWellFormed [] = True"
| "isWellFormed [c] = (\<not> is_high_surrogate c \<and> \<not> is_low_surrogate c)"
| "isWellFormed (c # d # rest) =
     (if is_high_surrogate c then is_low_surrogate d \<and> isWellFormed rest
      else \<not> is_low_surrogate c \<and> isWellFormed (d # rest))"

section \<open>Key codec (\<open>crypto.ts\<close>)\<close>

datatype key_usage = Encrypt | Decrypt

record CryptoKey =
  algorithm_name :: string
  algorithm_length :: nat
  extractable :: bool
  usages :: "key_usage list"
  key_material :: "byte list"

text \<open>
  \<open>crypto.subtle.generateKey({name: "AES-GCM", length: 256}, true, ["encrypt", "decrypt"])\<close>.
  The 32 bytes drawn from the platform's random source are the argument.
\<close>

definition generateEncryptionKey :: "byte list \<Rightarrow> CryptoKey" where
  "generateEncryptionKey rnd =
     \<lparr>algorithm_name = ''AES-GCM'', algorithm_length = 256, extractable = True,
      usages = [Encrypt, Decrypt], key_material = rnd\<rparr>"

text \<open>\<open>crypto.subtle.exportKey("raw", key)\<close> refuses a key that is not extractable.\<close>

definition subtle_exportKey :: "CryptoKey \<Rightarrow> error + byte list" where
  "subtle_exportKey key = (if extractable key then Inr (key_material key) else Inl InvalidAccessError)"

text \<open>
  \<open>crypto.subtle.importKey("raw", keyData, {name: "AES-GCM"}, true, ["encrypt", "decrypt"])\<close>
  accepts 128, 192 and 256 bits of key material and nothing else.
\<close>

definition subtle_importKey :: "byte list \<Rightarrow> error + CryptoKey" where
  "subtle_importKey keyData =
     (if length keyData = 16 \<or> length keyData = 24 \<or> length keyData = 32
      then Inr \<lparr>algorithm_name = ''AES-GCM'', algorithm_length = 8 * length keyData,
                extractable = True, usages = [Encrypt, Decrypt], key_material = keyData\<rparr>
      else Inl DataError)"

definition exportKey :: "CryptoKey \<Rightarrow> error + jsstring" where
  "exportKey key =
     (case subtle_exportKey key of
        Inl e \<Rightarrow> Inl e
      | Inr exported \<Rightarrow> btoa (fromCharCode exported))"

definition importKey :: "jsstring \<Rightarrow> error + CryptoKey" where
  "importKey keyString =
     (case atob keyString of
        Inl e \<Rightarrow> Inl e
      | Inr bin \<Rightarrow> subtle_importKey (charCodes bin))"

text \<open>
  The primitives of \<open>crypto.subtle\<close> that the repository calls are arguments of the
  model: AES-GCM encryption and decryption on raw key material, nonce and data (decryption
  gives \<open>None\<close> when the tag does not verify), and the SHA-256 digest.
\<close>

record subtle =
  aes_gcm_encrypt :: "byte list \<Rightarrow> byte list \<Rightarrow> byte list \<Rightarrow> byte list"
  aes_gcm_decrypt :: "byte list \<Rightarrow> byte list \<Rightarrow> byte list \<Rightarrow> byte list option"
  sha256 :: "byte list \<Rightarrow> byte list"

text \<open>\<open>b.toString(16).padStart(2, "0")\<close> for a byte.\<close>

definition hex_digit :: "nat \<Rightarrow> code_unit" where
  "hex_digit d = (if d < 10 then unit_of (48 + d) else unit_of (97 + (d - 10)))"

definition toString16 :: "byte \<Rightarrow> jsstring" where
  "toString16 b =
     (if unat b < 16 then [hex_digit (unat b)]
      else [hex_digit (unat b div 16), hex_digit (unat b mod 16)])"

definition padStart :: "nat \<Rightarrow> code_unit \<Rightarrow> jsstring \<Rightarrow> jsstring" where
  "padStart n c s = replicate (n - length s) c @ s"

definition generateKeyHash :: "subtle \<Rightarrow> jsstring \<Rightarrow> jsstring" where
  "generateKeyHash sc keyString =
     (let data = TextEncoder_encode keyString;
          hashArray = sha256 sc data
      in concat (map (\<lambda>b. padStart 2 48 (toString16 b)) (take 4 hashArray)))"


text \<open>
  The public index of a key: \<open>generateNewKey\<close> and \<open>setKey\<close> derive it from the
  exported string, \<open>generateKeyHash(await exportKey(key))\<close>.
\<close>

definition publicIndex :: "subtle \<Rightarrow> CryptoKey \<Rightarrow> error + jsstring" where
  "publicIndex sc key =
     (case exportKey key of
        Inl e \<Rightarrow> Inl e
      | Inr keyString \<Rightarrow> Inr (generateKeyHash sc keyString))"

text \<open>Two lower-case hexadecimal digits of a byte.\<close>

definition hex2 :: "byte \<Rightarrow> jsstring" where
  "hex2 b = [hex_digit (unat b div 16), hex_digit (unat b mod 16)]"

section \<open>Authenticated encryption (\<open>crypto.ts\<close>)\<close>

text \<open>
  \<open>crypto.subtle.encrypt\<close> and \<open>crypto.subtle.decrypt\<close> with \<open>{name: "AES-GCM", iv}\<close>:
  the key must be an AES-GCM key with the matching usage; decryption throws
  \<open>OperationError\<close> when the tag does not verify.
\<close>

definition subtle_encrypt :: "subtle \<Rightarrow> byte list \<Rightarrow> CryptoKey \<Rightarrow> byte list \<Rightarrow> error + byte list" where
  "subtle_encrypt sc iv key data =
     (if algorithm_name key = ''AES-GCM'' \<and> Encrypt \<in> set (usages key)
      then Inr (aes_gcm_encrypt sc (key_material key) iv data)
      else Inl InvalidAccessError)"

definition subtle_decrypt :: "subtle \<Rightarrow> byte list \<Rightarrow> CryptoKey \<Rightarrow> byte list \<Rightarrow> error + byte list" where
  "subtle_decrypt sc iv key data =
     (if algorithm_name key = ''AES-GCM'' \<and> Decrypt \<in> set (usages key)
      then (case aes_gcm_decrypt sc (key_material key) iv data of
              None \<Rightarrow> Inl OperationError
            | Some plain \<Rightarrow> Inr plain)
      else Inl InvalidAccessError)"

text \<open>
  \<open>encryptText\<close> and \<open>encryptFile\<close> draw the nonce with
  \<open>crypto.getRandomValues(new Uint8Array(12))\<close>; the twelve bytes drawn are the argument
  \<open>iv\<close>. The result of \<open>encryptText\<close> is the pair \<open>(encryptedData, iv)\<close> of base64 strings,
  that of \<open>encryptFile\<close> the pair of the encrypted bytes and the nonce.
\<close>

definition encryptText :: "subtle \<Rightarrow> byte list \<Rightarrow> jsstring \<Rightarrow> CryptoKey \<Rightarrow> error + jsstring \<times> jsstring" where
  "encryptText sc iv text key =
     (let data = TextEncoder_encode text
      in case subtle_encrypt sc iv key data of
           Inl e \<Rightarrow> Inl e
         | Inr encryptedBuffer \<Rightarrow>
             (case btoa (fromCharCode encryptedBuffer) of
                Inl e \<Rightarrow> Inl e
              | Inr encryptedData \<Rightarrow>
                  (case btoa (fromCharCode iv) of
                     Inl e \<Rightarrow> Inl e
                   | Inr ivString \<Rightarrow> Inr (encryptedData, ivString))))"

definition decryptText :: "subtle \<Rightarrow> jsstring \<Rightarrow> CryptoKey \<Rightarrow> jsstring \<Rightarrow> error + jsstring" where
  "decryptText sc encryptedData key iv =
     (case atob encryptedData of
        Inl e \<Rightarrow> Inl e
      | Inr bin \<Rightarrow>
          (let encryptedBytes = charCodes bin
           in case atob iv of
                Inl e \<Rightarrow> Inl e
              | Inr ivBin \<Rightarrow>
                  (let ivBytes = charCodes ivBin
                   in case subtle_decrypt sc ivBytes key encryptedBytes of
                        Inl e \<Rightarrow> Inl e
                      | Inr decryptedBuffer \<Rightarrow> Inr (TextDecoder_decode decryptedBuffer))))"

definition encryptFile :: "subtle \<Rightarrow> byte list \<Rightarrow> byte list \<Rightarrow> CryptoKey \<Rightarrow> error + byte list \<times> byte list" where
  "encryptFile sc iv fileData key =
     (case subtle_encrypt sc iv key fileData of
        Inl e \<Rightarrow> Inl e
      | Inr encryptedData \<Rightarrow> Inr (encryptedData, iv))"

definition decryptData :: "subtle \<Rightarrow> byte list \<Rightarrow> CryptoKey \<Rightarrow> byte list \<Rightarrow> error + byte list" where
  "decryptData sc encryptedData key iv = subtle_decrypt sc iv key encryptedData"

text \<open>
  What the model asks of the platform's AES-GCM: decrypting with the key and nonce of the
  encryption gives the plaintext back.
\<close>

definition aes_gcm_correct :: "subtle \<Rightarrow> bool" where
  "aes_gcm_correct sc \<longleftrightarrow>
     (\<forall>k iv plain. aes_gcm_decrypt sc k iv (aes_gcm_encrypt sc k iv plain) = Some plain)"

text \<open>The keys the program holds are made by \<open>generateKey\<close> or \<open>importKey\<close> with both usages.\<close>

definition aes_gcm_key :: "CryptoKey \<Rightarrow> bool" where
  "aes_gcm_key key \<longleftrightarrow>
     algorithm_name key = ''AES-GCM'' \<and> Encrypt \<in> set (usages key) \<and> Decrypt \<in> set (usages key)"

section \<open>URLs: \<open>encodeURIComponent\<close>, the \<open>hash\<close> setter and \<open>URLSearchParams\<close>\<close>

text \<open>
  \<open>encodeURIComponent\<close> keeps letters, digits and \<open>- _ . ! ~ * ' ( )\<close>, writes every
  other code point as the percent-encoded bytes of its UTF-8 form (upper-case digits), and
  throws \<open>URIError\<close> on an unpaired surrogate.
\<close>

definition uri_unreserved :: "nat \<Rightarrow> bool" where
  "uri_unreserved cp \<longleftrightarrow>
     (65 \<le> cp \<and> cp \<le> 90) \<or> (97 \<le> cp \<and> cp \<le> 122) \<or> (48 \<le> cp \<and> cp \<le> 57)
     \<or> cp \<in> {45, 95, 46, 33, 126, 42, 39, 40, 41}"

definition upper_hex_digit :: "nat \<Rightarrow> code_unit" where
  "upper_hex_digit d = (if d < 10 then unit_of (48 + d) else unit_of (65 + (d - 10)))"

definition percent_encode_byte :: "byte \<Rightarrow> jsstring" where
  "percent_encode_byte b = [37, upper_hex_digit (unat b div 16), upper_hex_digit (unat b mod 16)]"

definition encodeURIComponent :: "jsstring \<Rightarrow> error + jsstring" where
  "encodeURIComponent s =
     (if isWellFormed s
      then Inr (concat (map (\<lambda>cp. if uri_unreserved cp then [unit_of cp]
                                    else concat (map percent_encode_byte (utf8_bytes cp)))
                            (to_scalars s)))
      else Inl URIError)"

text \<open>
  A URL as the program sees it: the serialisation up to the fragment, and the fragment
  (\<open>None\<close> when there is no \<open>#\<close>). The \<open>hash\<close> getter gives the empty string for a
  missing or empty fragment. The \<open>hash\<close> setter removes the fragment for the empty string;
  otherwise it drops one leading \<open>#\<close>, removes tabs and newlines, and percent-encodes the
  code points of the fragment percent-encode set (controls, space, \<open>" < > `\<close> and
  everything above \<open>~\<close>).
\<close>

record URL =
  url_base :: jsstring
  url_fragment :: "jsstring option"

definition URL_hash :: "URL \<Rightarrow> jsstring" where
  "URL_hash url =
     (case url_fragment url of
        None \<Rightarrow> []
      | Some f \<Rightarrow> if f = [] then [] else 35 # f)"

definition URL_href :: "URL \<Rightarrow> jsstring" where
  "URL_href url = url_base url @ (case url_fragment url of None \<Rightarrow> [] | Some f \<Rightarrow> 35 # f)"

definition in_fragment_set :: "nat \<Rightarrow> bool" where
  "in_fragment_set cp \<longleftrightarrow> cp \<le> 31 \<or> 126 < cp \<or> cp \<in> {32, 34, 60, 62, 96}"

definition fragment_percent_encode :: "jsstring \<Rightarrow> jsstring" where
  "fragment_percent_encode s =
     concat (map (\<lambda>cp. if in_fragment_set cp then concat (map percent_encode_byte (utf8_bytes cp))
                       else [unit_of cp])
                 (to_scalars s))"

definition URL_set_hash :: "jsstring \<Rightarrow> URL \<Rightarrow> URL" where
  "URL_set_hash v url =
     (if v = [] then url\<lparr>url_fragment := None\<rparr>
      else let input = (if hd v = 35 then tl v else v);
               input' = filter (\<lambda>c. c \<noteq> 9 \<and> c \<noteq> 10 \<and> c \<noteq> 13) input
           in url\<lparr>url_fragment := Some (fragment_percent_encode input')\<rparr>)"

text \<open>
  \<open>new URLSearchParams(string)\<close>: one leading \<open>?\<close> is dropped and the string is UTF-8
  encoded; the bytes are split at \<open>&\<close>, each non-empty piece at its first \<open>=\<close>; in name
  and value \<open>+\<close> becomes a space, percent escapes are decoded, and the bytes are UTF-8
  decoded (keeping a byte order mark). \<open>get\<close> gives the first value under a name.
\<close>

fun split_on :: "'a \<Rightarrow> 'a list \<Rightarrow> 'a list list" where
  "split_on sep [] = [[]]"
| "split_on sep (x # xs) =
     (if x = sep then [] # split_on sep xs
      else (case split_on sep xs of
              [] \<Rightarrow> [[x]]
            | piece # pieces \<Rightarrow> (x # piece) # pieces))"

definition is_hex_digit :: "byte \<Rightarrow> bool" where
  "is_hex_digit b \<longleftrightarrow>
     (48 \<le> unat b \<and> unat b \<le> 57) \<or> (65 \<le> unat b \<and> unat b \<le> 70) \<or> (97 \<le> unat b \<and> unat b \<le> 102)"

definition hex_value :: "byte \<Rightarrow> nat" where
  "hex_value b =
     (if unat b \<le> 57 then unat b - 48
      else if unat b \<le> 70 then unat b - 55
      else unat b - 87)"

fun percent_decode :: "byte list \<Rightarrow> byte list" where
  "percent_decode [] = []"
| "percent_decode [b] = [b]"
| "percent_decode [b, c] = [b, c]"
| "percent_decode (b # h # l # rest) =
     (if b = 37 \<and> is_hex_digit h \<and> is_hex_digit l
      then byte_of (hex_value h * 16 + hex_value l) # percent_decode rest
      else b # percent_decode (h # l # rest))"

definition utf8_decode_without_bom :: "byte list \<Rightarrow> jsstring" where
  "utf8_decode_without_bom bs = from_scalars (utf8_decode 0 0 128 191 bs)"

definition urlencoded_component :: "byte list \<Rightarrow> jsstring" where
  "urlencoded_component bs =
     utf8_decode_without_bom (percent_decode (map (\<lambda>b. if b = 43 then 32 else b) bs))"

definition urlencoded_parse :: "byte list \<Rightarrow> (jsstring \<times> jsstring) list" where
  "urlencoded_parse input =
     map (\<lambda>piece. (urlencoded_component (takeWhile (\<lambda>b. b \<noteq> 61) piece),
                    urlencoded_component (drop 1 (dropWhile (\<lambda>b. b \<noteq> 61) piece))))
         (filter (\<lambda>piece. piece \<noteq> []) (split_on 38 input))"

definition URLSearchParams :: "jsstring \<Rightarrow> (jsstring \<times> jsstring) list" where
  "URLSearchParams init =
     urlencoded_parse (TextEncoder_encode (if init \<noteq> [] \<and> hd init = 63 then tl init else init))"

definition searchParams_get :: "(jsstring \<times> jsstring) list \<Rightarrow> jsstring \<Rightarrow> jsstring option" where
  "searchParams_get params name = map_of params name"

text \<open>
  Strings of ASCII characters only; the byte of an ASCII code unit; and what
  \<open>encodeURIComponent\<close> writes for one ASCII character.
\<close>

definition ascii :: "jsstring \<Rightarrow> bool" where
  "ascii s \<longleftrightarrow> (\<forall>c \<in> set s. unat c < 128)"

definition low_byte :: "code_unit \<Rightarrow> byte" where
  "low_byte c = byte_of (unat c)"

definition uri_escape :: "code_unit \<Rightarrow> jsstring" where
  "uri_escape c = (if uri_unreserved (unat c) then [c] else percent_encode_byte (low_byte c))"
section \<open>Key manager (\<open>key-manager.ts\<close>, \<open>stores.ts\<close>)\<close>

text \<open>
  The state the key manager reads and writes: its three private fields, the three stores it
  publishes to, the session storage, and the session history of the page. Reading
  \<open>window.sessionStorage\<close> gives \<open>undefined\<close> where there is none (\<open>Missing\<close>, the case
  \<open>window?.sessionStorage\<close> guards), throws \<open>SecurityError\<close> where the page may not use
  storage (\<open>Denied\<close>), or gives the storage object; \<open>setItem\<close> may throw (the case
  \<open>saveToSessionStorage\<close> catches). \<open>location\<close> is the URL of the current entry of the
  session history, \<open>history_back\<close> and \<open>history_forward\<close> are the URLs of the entries
  behind and ahead of it, nearest first. Console output is not part of the state.
\<close>

record storage =
  items :: "jsstring \<Rightarrow> jsstring option"
  setItem_throws :: bool

datatype storage_access = Missing | Denied | Present storage

record world =
  km_key :: "CryptoKey option"
  km_keyString :: "jsstring option"
  km_keyHash :: "jsstring option"
  encryptionKeyStore :: "CryptoKey option"
  keyHashStore :: "jsstring option"
  keyLoadedFromExternal :: bool
  sessionStorage :: storage_access
  location :: URL
  history_back :: "URL list"
  history_forward :: "URL list"

definition SESSION_STORAGE_KEY :: jsstring where
  "SESSION_STORAGE_KEY = js ''tinybox_encryption_key''"

text \<open>
  A \<open>KeyManager\<close> just constructed, in a page with the given storage and location and no
  other history entry.
\<close>

definition new_KeyManager :: "storage_access \<Rightarrow> URL \<Rightarrow> world" where
  "new_KeyManager st loc =
     \<lparr>km_key = None, km_keyString = None, km_keyHash = None,
      encryptionKeyStore = None, keyHashStore = None, keyLoadedFromExternal = False,
      sessionStorage = st, location = loc, history_back = [], history_forward = []\<rparr>"


text \<open>
  \<open>window.history.replaceState({}, "", url)\<close> puts the URL into the current entry; no entry
  is added or removed.
\<close>

definition history_replaceState :: "URL \<Rightarrow> world \<Rightarrow> world" where
  "history_replaceState url w = w\<lparr>location := url\<rparr>"

definition sessionStorage_setItem :: "jsstring \<Rightarrow> jsstring \<Rightarrow> storage \<Rightarrow> error + storage" where
  "sessionStorage_setItem name v st =
     (if setItem_throws st then Inl QuotaExceededError
      else Inr (st\<lparr>items := (items st)(name \<mapsto> v)\<rparr>))"

text \<open>
  \<open>saveToSessionStorage\<close> reads \<open>window?.sessionStorage\<close> in the condition of its \<open>if\<close>,
  outside the \<open>try\<close>: where that read throws, the method throws; a throwing \<open>setItem\<close> is
  caught and logged.
\<close>

definition saveToSessionStorage :: "world \<Rightarrow> error + world" where
  "saveToSessionStorage w =
     (case km_keyString w of
        None \<Rightarrow> Inr w
      | Some keyString \<Rightarrow>
          if keyString = [] then Inr w
          else (case sessionStorage w of
                  Denied \<Rightarrow> Inl SecurityError
                | Missing \<Rightarrow> Inr w
                | Present st \<Rightarrow>
                    (case sessionStorage_setItem SESSION_STORAGE_KEY keyString st of
                       Inl e \<Rightarrow> Inr w
                     | Inr st' \<Rightarrow> Inr (w\<lparr>sessionStorage := Present st'\<rparr>))))"

text \<open>
  An operation that can throw after it has written to the state returns the pair of its
  outcome and the state it leaves.

  \<open>setKey\<close> runs in two parts, with other code free to run in between. The first,
  \<open>setKey_import\<close>, is \<open>this.key = await importKey(keyString); this.keyString = keyString\<close>:
  both fields are written in one turn once \<open>importKey\<close> has succeeded, and nothing is
  written when it throws. The call then waits at \<open>await generateKeyHash(keyString)\<close>. The
  second part, \<open>setKey_publish\<close>, runs when the digest has arrived: it writes \<open>keyHash\<close>,
  calls \<open>saveToSessionStorage\<close> (which can throw, leaving the stores as they were) and
  sets the two stores from the fields \<open>this.key\<close> and \<open>this.keyHash\<close> as they are then.
  \<open>setKey\<close> is one call with nothing else running between its two parts.
\<close>

definition setKey_import :: "jsstring \<Rightarrow> world \<Rightarrow> error + world" where
  "setKey_import keyString w =
     (case importKey keyString of
        Inl e \<Rightarrow> Inl e
      | Inr key \<Rightarrow> Inr (w\<lparr>km_key := Some key, km_keyString := Some keyString\<rparr>))"

definition setKey_publish :: "subtle \<Rightarrow> jsstring \<Rightarrow> world \<Rightarrow> (error + unit) \<times> world" where
  "setKey_publish sc keyString w =
     (let w1 = w\<lparr>km_keyHash := Some (generateKeyHash sc keyString)\<rparr>
      in case saveToSessionStorage w1 of
           Inl e \<Rightarrow> (Inl e, w1)
         | Inr w2 \<Rightarrow> (Inr (), w2\<lparr>encryptionKeyStore := km_key w2, keyHashStore := km_keyHash w2\<rparr>))"

definition setKey :: "subtle \<Rightarrow> jsstring \<Rightarrow> world \<Rightarrow> (error + unit) \<times> world" where
  "setKey sc keyString w =
     (case setKey_import keyString w of
        Inl e \<Rightarrow> (Inl e, w)
      | Inr w1 \<Rightarrow> setKey_publish sc keyString w1)"

text \<open>The 32 random bytes of \<open>generateEncryptionKey\<close> are the argument \<open>rnd\<close>.\<close>

definition generateNewKey :: "subtle \<Rightarrow> byte list \<Rightarrow> world \<Rightarrow> (error + unit) \<times> world" where
  "generateNewKey sc rnd w =
     (case exportKey (generateEncryptionKey rnd) of
        Inl e \<Rightarrow> (Inl e, w)
      | Inr keyString \<Rightarrow> setKey sc keyString w)"

text \<open>
  Both loaders wrap \<open>setKey\<close> in \<open>try\<close>/\<open>catch\<close>: a failure is logged and the loader
  returns \<open>false\<close>, in the state \<open>setKey\<close> left. \<open>loadFromSessionStorage\<close> reads
  \<open>window?.sessionStorage\<close> before its \<open>try\<close> and throws where that read throws.
  \<open>loadFromUrl\<close> has no statement outside its \<open>try\<close> that can throw; its result is
  always \<open>Inr\<close> of the value returned and the state left.
\<close>

definition loadFromSessionStorage :: "subtle \<Rightarrow> world \<Rightarrow> (error + bool) \<times> world" where
  "loadFromSessionStorage sc w =
     (case sessionStorage w of
        Denied \<Rightarrow> (Inl SecurityError, w)
      | Missing \<Rightarrow> (Inr False, w)
      | Present st \<Rightarrow>
          (case items st SESSION_STORAGE_KEY of
             None \<Rightarrow> (Inr False, w)
           | Some storedKey \<Rightarrow>
               if storedKey = [] then (Inr False, w)
               else (case setKey sc storedKey w of
                       (Inl e, w') \<Rightarrow> (Inr False, w')
                     | (Inr u, w') \<Rightarrow> (Inr True, w'\<lparr>keyLoadedFromExternal := True\<rparr>))))"

definition keyFromUrl :: "world \<Rightarrow> jsstring option" where
  "keyFromUrl w = searchParams_get (URLSearchParams (drop 1 (URL_hash (location w)))) (js ''key'')"

definition loadFromUrl :: "subtle \<Rightarrow> world \<Rightarrow> error + bool \<times> world" where
  "loadFromUrl sc w =
     (let hash = URL_hash (location w)
      in if \<not> (hash \<noteq> [] \<and> hd hash = 35) then Inr (False, w)
         else (case keyFromUrl w of
                 None \<Rightarrow> Inr (False, w)
               | Some k \<Rightarrow>
                   if k = [] then Inr (False, w)
                   else (case setKey sc k w of
                           (Inl e, w') \<Rightarrow> Inr (False, w')
                         | (Inr u, w') \<Rightarrow>
                             Inr (True, history_replaceState (URL_set_hash [] (location w'))
                                          (w'\<lparr>keyLoadedFromExternal := True\<rparr>)))))"

datatype outcome = Generated | FromUrl | FromSession

definition initialize :: "subtle \<Rightarrow> byte list \<Rightarrow> world \<Rightarrow> (error + outcome) \<times> world" where
  "initialize sc rnd w =
     (case loadFromUrl sc w of
        Inl e \<Rightarrow> (Inl e, w)
      | Inr (fromUrl, w1) \<Rightarrow>
          if fromUrl then (Inr FromUrl, w1)
          else (case loadFromSessionStorage sc w1 of
                  (Inl e, w2) \<Rightarrow> (Inl e, w2)
                | (Inr fromSession, w2) \<Rightarrow>
                    if fromSession then (Inr FromSession, w2)
                    else (case generateNewKey sc rnd w2 of
                            (Inl e, w3) \<Rightarrow> (Inl e, w3)
                          | (Inr u, w3) \<Rightarrow> (Inr Generated, w3))))"

definition getShareUrl :: "world \<Rightarrow> error + jsstring" where
  "getShareUrl w =
     (case km_keyString w of
        None \<Rightarrow> Inl NoKeyAvailable
      | Some keyString \<Rightarrow>
          if keyString = [] then Inl NoKeyAvailable
          else (case encodeURIComponent keyString of
                  Inl e \<Rightarrow> Inl e
                | Inr encoded \<Rightarrow>
                    Inr (URL_href (URL_set_hash (js ''#key='' @ encoded) (location w)))))"

text \<open>The \<open>hashchange\<close> listener calls \<open>loadFromUrl\<close> and drops its result.\<close>

definition hashChangeListener :: "subtle \<Rightarrow> world \<Rightarrow> error + world" where
  "hashChangeListener sc w =
     (case loadFromUrl sc w of
        Inl e \<Rightarrow> Inl e
      | Inr (_, w') \<Rightarrow> Inr w')"

text \<open>
  The consistency of the key manager's fields: whenever a key is held, a key string is held
  too, the key is what \<open>importKey\<close> makes of the key string, the hash is what
  \<open>generateKeyHash\<close> makes of it, and the two published stores hold that key and hash.
\<close>

definition consistent :: "subtle \<Rightarrow> world \<Rightarrow> bool" where
  "consistent sc w =
     (case km_key w of
        None \<Rightarrow> True
      | Some key \<Rightarrow>
          (case km_keyString w of
             None \<Rightarrow> False
           | Some keyString \<Rightarrow>
               importKey keyString = Inr key
             \<and> km_keyHash w = Some (generateKeyHash sc keyString)
             \<and> encryptionKeyStore w = Some key
             \<and> keyHashStore w = Some (generateKeyHash sc keyString)))"

text \<open>
  The states a key manager can be in. The asynchronous operations are interleaved at their
  \<open>await\<close>s: from the state of construction, the first part of a \<open>setKey\<close> call may run
  for any key string, the second part for any key string that passed \<open>importKey\<close>, in any
  order and any number of times; the loaders' \<open>keyLoadedFromExternal.set(true)\<close> and
  \<open>replaceState\<close>, and navigation by the user, change the flag and the session history.
  Every run of the operations, overlapping or not, stays within these states.
\<close>

inductive reachable :: "subtle \<Rightarrow> world \<Rightarrow> bool" for sc :: subtle where
  constructed: "reachable sc (new_KeyManager st loc)"
| imported: "reachable sc w \<Longrightarrow> setKey_import keyString w = Inr w' \<Longrightarrow> reachable sc w'"
| published: "reachable sc w \<Longrightarrow> importKey keyString = Inr key
     \<Longrightarrow> reachable sc (snd (setKey_publish sc keyString w))"
| flagged: "reachable sc w \<Longrightarrow> reachable sc (w\<lparr>keyLoadedFromExternal := True\<rparr>)"
| navigated: "reachable sc w
     \<Longrightarrow> reachable sc (w\<lparr>location := loc, history_back := behind, history_forward := ahead\<rparr>)"

text \<open>
  The spec's \<open>shareableLink\<close>, in its words: a URL whose fragment encodes
  \<open>serialize(secret)\<close> under the field \<open>key\<close>, and \<open>NoKeyAvailable\<close> when no key is held.
  It is compared with \<open>getShareUrl\<close> below.
\<close>

definition shareableLink_spec :: "world \<Rightarrow> error + jsstring" where
  "shareableLink_spec w =
     (case km_key w of
        None \<Rightarrow> Inl NoKeyAvailable
      | Some key \<Rightarrow>
          (case exportKey key of
             Inl e \<Rightarrow> Inl e
           | Inr serialized \<Rightarrow>
               (case encodeURIComponent serialized of
                  Inl e \<Rightarrow> Inl e
                | Inr encoded \<Rightarrow>
                    Inr (url_base (location w) @ js ''#key='' @ encoded))))"

section \<open>File list (\<open>actions/index.ts\<close>, \<open>FileUploader.tsx\<close>)\<close>

text \<open>
  A row of the \<open>EncryptedFile\<close> table. \<open>createdAt\<close> is an instant, a number of
  milliseconds; the actions send it as its ISO string, which the model identifies with the
  instant. The database is reachable or not.
\<close>

record EncryptedFile =
  row_id :: jsstring
  row_encryptedMetadata :: jsstring
  row_metadataIv :: jsstring
  row_fileIv :: jsstring
  encryptionKeyHash :: jsstring
  createdAt :: nat

datatype database = Unavailable | Rows "EncryptedFile list"

text \<open>
  \<open>prisma.encryptedFile.findMany({where: {encryptionKeyHash}, orderBy: {createdAt: "desc"}})\<close>.
  Rows created at the same instant come in an order the database chooses; the model takes
  the reverse of a stable ascending sort.
\<close>

definition findMany :: "database \<Rightarrow> jsstring \<Rightarrow> error + EncryptedFile list" where
  "findMany db keyHash =
     (case db of
        Unavailable \<Rightarrow> Inl DatabaseError
      | Rows rows \<Rightarrow> Inr (rev (sort_key createdAt (filter (\<lambda>r. encryptionKeyHash r = keyHash) rows))))"

definition findUnique :: "database \<Rightarrow> jsstring \<Rightarrow> error + EncryptedFile option" where
  "findUnique db fileId =
     (case db of
        Unavailable \<Rightarrow> Inl DatabaseError
      | Rows rows \<Rightarrow> Inr (find (\<lambda>r. row_id r = fileId) rows))"

text \<open>What the \<open>list\<close> action returns for one file.\<close>

record listed_file =
  file_id :: jsstring
  encryptedMetadata :: jsstring
  metadataIv :: jsstring
  fileIv :: jsstring
  uploadedAt :: nat

text \<open>
  The \<open>list\<close> action: the input schema asks for a non-empty \<open>keyHash\<close>; the handler maps
  the rows found and turns any failure of the query into \<open>INTERNAL_SERVER_ERROR\<close>.
\<close>

definition list_handler :: "database \<Rightarrow> jsstring \<Rightarrow> error + listed_file list" where
  "list_handler db keyHash =
     (case findMany db keyHash of
        Inl e \<Rightarrow> Inl (ActionError INTERNAL_SERVER_ERROR)
      | Inr encryptedFiles \<Rightarrow>
          Inr (map (\<lambda>file. \<lparr>file_id = row_id file,
                             encryptedMetadata = row_encryptedMetadata file,
                             metadataIv = row_metadataIv file,
                             fileIv = row_fileIv file,
                             uploadedAt = createdAt file\<rparr>) encryptedFiles))"

definition actions_list :: "database \<Rightarrow> jsstring \<Rightarrow> error + listed_file list" where
  "actions_list db keyHash = (if keyHash = [] then Inl ActionInputError else list_handler db keyHash)"

text \<open>
  The values \<open>JSON.parse\<close> produces; the parser itself is an argument of the model (\<open>None\<close>
  for a \<open>SyntaxError\<close>). Reading one of the properties \<open>fileName\<close>, \<open>fileSize\<close>,
  \<open>uploadDate\<close> throws on \<open>null\<close>, finds the member of an object, and is \<open>undefined\<close>
  otherwise. \<open>new Date(x)\<close> never throws.
\<close>

datatype json =
    JNull | JBool bool | JNumber real | JString jsstring
  | JArray "json list" | JObject "(jsstring \<times> json) list"

datatype jsvalue = Undefined | Value json

datatype js_date = Date jsvalue

definition metadata_property :: "json \<Rightarrow> jsstring \<Rightarrow> error + jsvalue" where
  "metadata_property v name =
     (case v of
        JNull \<Rightarrow> Inl TypeError
      | JObject members \<Rightarrow>
          Inr (case map_of members name of None \<Rightarrow> Undefined | Some x \<Rightarrow> Value x)
      | _ \<Rightarrow> Inr Undefined)"

record metadata =
  meta_fileName :: jsvalue
  meta_fileSize :: jsvalue
  meta_uploadDate :: js_date

definition decryptMetadata ::
  "subtle \<Rightarrow> (jsstring \<Rightarrow> json option) \<Rightarrow> jsstring \<Rightarrow> CryptoKey \<Rightarrow> jsstring \<Rightarrow> error + metadata" where
  "decryptMetadata sc JSON_parse encrypted key iv =
     (case decryptText sc encrypted key iv of
        Inl e \<Rightarrow> Inl e
      | Inr decryptedText \<Rightarrow>
          (case JSON_parse decryptedText of
             None \<Rightarrow> Inl SyntaxError
           | Some parsed \<Rightarrow>
               (case metadata_property parsed (js ''fileName'') of
                  Inl e \<Rightarrow> Inl e
                | Inr nameValue \<Rightarrow>
                    (case metadata_property parsed (js ''fileSize'') of
                       Inl e \<Rightarrow> Inl e
                     | Inr sizeValue \<Rightarrow>
                         (case metadata_property parsed (js ''uploadDate'') of
                            Inl e \<Rightarrow> Inl e
                          | Inr dateValue \<Rightarrow>
                              Inr \<lparr>meta_fileName = nameValue, meta_fileSize = sizeValue,
                                   meta_uploadDate = Date dateValue\<rparr>)))))"

record FileInfo =
  info_id :: jsstring
  fileName :: jsvalue
  fileSize :: jsvalue
  uploadDate :: js_date
  info_uploadedAt :: nat

definition file_view :: "listed_file \<Rightarrow> metadata \<Rightarrow> FileInfo" where
  "file_view encryptedFile decryptedMetadata =
     \<lparr>info_id = file_id encryptedFile,
      fileName = meta_fileName decryptedMetadata,
      fileSize = meta_fileSize decryptedMetadata,
      uploadDate = meta_uploadDate decryptedMetadata,
      info_uploadedAt = uploadedAt encryptedFile\<rparr>"

text \<open>
  The loop of \<open>loadFiles\<close>: each file is decrypted inside its own \<open>try\<close>; a success is
  pushed onto \<open>decryptedFiles\<close>, a failure is logged to the console and skipped.
\<close>

fun decrypt_each ::
  "subtle \<Rightarrow> (jsstring \<Rightarrow> json option) \<Rightarrow> CryptoKey \<Rightarrow> listed_file list \<Rightarrow> FileInfo list \<Rightarrow> FileInfo list" where
  "decrypt_each sc JSON_parse key [] decryptedFiles = decryptedFiles"
| "decrypt_each sc JSON_parse key (encryptedFile # rest) decryptedFiles =
     (case decryptMetadata sc JSON_parse (encryptedMetadata encryptedFile) key (metadataIv encryptedFile) of
        Inl e \<Rightarrow> decrypt_each sc JSON_parse key rest decryptedFiles
      | Inr decryptedMetadata \<Rightarrow>
          decrypt_each sc JSON_parse key rest
            (decryptedFiles @ [file_view encryptedFile decryptedMetadata]))"

definition reconcile ::
  "subtle \<Rightarrow> (jsstring \<Rightarrow> json option) \<Rightarrow> listed_file list \<Rightarrow> CryptoKey \<Rightarrow> FileInfo list" where
  "reconcile sc JSON_parse records key = decrypt_each sc JSON_parse key records []"

text \<open>
  \<open>loadFiles\<close> reads the key hash from \<open>keyHashStore\<close> and the key from the key manager,
  and writes \<open>filesStore\<close>; a failure of the \<open>list\<close> action ends in the outer \<open>catch\<close>,
  which shows a toast and leaves the store as it was.
\<close>

record ui =
  filesStore :: "FileInfo list"
  toasts :: "string list"

definition loadFiles ::
  "subtle \<Rightarrow> (jsstring \<Rightarrow> json option) \<Rightarrow> database \<Rightarrow> world \<Rightarrow> ui \<Rightarrow> ui" where
  "loadFiles sc JSON_parse db w u =
     (case keyHashStore w of
        None \<Rightarrow> u\<lparr>filesStore := []\<rparr>
      | Some keyHash \<Rightarrow>
          if keyHash = [] then u\<lparr>filesStore := []\<rparr>
          else (case actions_list db keyHash of
                  Inl e \<Rightarrow> u\<lparr>toasts := toasts u @ [''Failed to load files'']\<rparr>
                | Inr files \<Rightarrow>
                    (case km_key w of
                       None \<Rightarrow> u\<lparr>filesStore := []\<rparr>
                     | Some key \<Rightarrow> u\<lparr>filesStore := reconcile sc JSON_parse files key\<rparr>)))"

section \<open>Single-file actions (\<open>actions/index.ts\<close>)\<close>

text \<open>
  The \<open>info\<close> and \<open>fetch\<close> actions take JSON input with the schema
  \<open>z.object({fileId: z.string().uuid(...)})\<close>. Zod's UUID test and Node's \<open>path.join\<close> are
  arguments of the model. An action validates its input first and calls its handler only
  with a value that fits the schema. The handlers' reads of the database and the file
  system are logged.
\<close>

datatype access = DbFindUnique jsstring | FsAccess jsstring | FsReadFile jsstring

datatype file_entry = Unreadable | Content "byte list"

record server =
  srv_db :: database
  srv_cwd :: jsstring
  srv_files :: "jsstring \<Rightarrow> file_entry option"

definition fileId_schema :: "(jsstring \<Rightarrow> bool) \<Rightarrow> json \<Rightarrow> error + jsstring" where
  "fileId_schema uuid input =
     (case input of
        JObject members \<Rightarrow>
          (case map_of members (js ''fileId'') of
             Some (JString s) \<Rightarrow> if uuid s then Inr s else Inl ActionInputError
           | _ \<Rightarrow> Inl ActionInputError)
      | _ \<Rightarrow> Inl ActionInputError)"

definition defineAction ::
  "(json \<Rightarrow> error + 'i) \<Rightarrow> ('i \<Rightarrow> (error + 'r) \<times> access list) \<Rightarrow> json \<Rightarrow> (error + 'r) \<times> access list" where
  "defineAction schema handler input =
     (case schema input of
        Inl e \<Rightarrow> (Inl e, [])
      | Inr v \<Rightarrow> handler v)"

record file_info =
  fi_id :: jsstring
  fi_encryptedMetadata :: jsstring
  fi_metadataIv :: jsstring
  fi_fileIv :: jsstring
  fi_encryptionKeyHash :: jsstring
  fi_uploadedAt :: nat

definition info_handler :: "server \<Rightarrow> jsstring \<Rightarrow> (error + file_info) \<times> access list" where
  "info_handler srv fileId =
     (case findUnique (srv_db srv) fileId of
        Inl e \<Rightarrow> (Inl (ActionError INTERNAL_SERVER_ERROR), [DbFindUnique fileId])
      | Inr None \<Rightarrow> (Inl (ActionError NOT_FOUND), [DbFindUnique fileId])
      | Inr (Some fileInfo) \<Rightarrow>
          (Inr \<lparr>fi_id = row_id fileInfo,
                fi_encryptedMetadata = row_encryptedMetadata fileInfo,
                fi_metadataIv = row_metadataIv fileInfo,
                fi_fileIv = row_fileIv fileInfo,
                fi_encryptionKeyHash = encryptionKeyHash fileInfo,
                fi_uploadedAt = createdAt fileInfo\<rparr>,
           [DbFindUnique fileId]))"

text \<open>
  \<open>fetch\<close> builds \<open>path.join(process.cwd(), "uploads", `${fileId}.bin`)\<close>, checks that the
  file exists, reads it and returns its content in base64 (\<open>Buffer.toString("base64")\<close>)
  together with the file name; a file that exists and cannot be read ends in
  \<open>INTERNAL_SERVER_ERROR\<close>.
\<close>

definition blob_path :: "(jsstring list \<Rightarrow> jsstring) \<Rightarrow> server \<Rightarrow> jsstring \<Rightarrow> jsstring" where
  "blob_path path_join srv fileId = path_join [srv_cwd srv, js ''uploads'', fileId @ js ''.bin'']"

definition Buffer_base64 :: "byte list \<Rightarrow> jsstring" where
  "Buffer_base64 bs = map b64_char (b64_sextets bs) @ replicate ((3 - length bs mod 3) mod 3) 61"

definition fetch_handler ::
  "(jsstring list \<Rightarrow> jsstring) \<Rightarrow> server \<Rightarrow> jsstring \<Rightarrow> (error + jsstring \<times> jsstring) \<times> access list" where
  "fetch_handler path_join srv fileId =
     (let filename = fileId @ js ''.bin'';
          filePath = path_join [srv_cwd srv, js ''uploads'', filename]
      in case srv_files srv filePath of
           None \<Rightarrow> (Inl (ActionError NOT_FOUND), [FsAccess filePath])
         | Some Unreadable \<Rightarrow>
             (Inl (ActionError INTERNAL_SERVER_ERROR), [FsAccess filePath, FsReadFile filePath])
         | Some (Content encryptedFile) \<Rightarrow>
             (Inr (Buffer_base64 encryptedFile, filename), [FsAccess filePath, FsReadFile filePath]))"

definition actions_info :: "(jsstring \<Rightarrow> bool) \<Rightarrow> server \<Rightarrow> json \<Rightarrow> (error + file_info) \<times> access list" where
  "actions_info uuid srv = defineAction (fileId_schema uuid) (info_handler srv)"

definition actions_fetch ::
  "(jsstring \<Rightarrow> bool) \<Rightarrow> (jsstring list \<Rightarrow> jsstring) \<Rightarrow> server \<Rightarrow> json
     \<Rightarrow> (error + jsstring \<times> jsstring) \<times> access list" where
  "actions_fetch uuid path_join srv = defineAction (fileId_schema uuid) (fetch_handler path_join srv)"

text \<open>What one record contributes to the list: its view, or nothing when it fails.\<close>

definition view_of ::
  "subtle \<Rightarrow> (jsstring \<Rightarrow> json option) \<Rightarrow> CryptoKey \<Rightarrow> listed_file \<Rightarrow> FileInfo list" where
  "view_of sc JSON_parse key encryptedFile =
     (case decryptMetadata sc JSON_parse (encryptedMetadata encryptedFile) key (metadataIv encryptedFile) of
        Inl e \<Rightarrow> []
      | Inr decryptedMetadata \<Rightarrow> [file_view encryptedFile decryptedMetadata])"

definition decrypts ::
  "subtle \<Rightarrow> (jsstring \<Rightarrow> json option) \<Rightarrow> CryptoKey \<Rightarrow> listed_file \<Rightarrow> bool" where
  "decrypts sc JSON_parse key encryptedFile \<longleftrightarrow>
     \<not> isl (decryptMetadata sc JSON_parse (encryptedMetadata encryptedFile) key (metadataIv encryptedFile))"

section \<open>Concrete instances for evaluation\<close>

text \<open>
  A small stand-in for the platform primitives, used where a statement is evaluated on
  concrete inputs: the ``ciphertext'' is key, nonce and plaintext in a row, and decryption
  checks the first two; the ``digest'' is 32 bytes that start with the length of the input.
\<close>

definition toy_subtle :: subtle where
  "toy_subtle =
     \<lparr>aes_gcm_encrypt = (\<lambda>k iv plain. k @ iv @ plain),
      aes_gcm_decrypt = (\<lambda>k iv c. if take (length k + length iv) c = k @ iv
                                   then Some (drop (length k + length iv) c) else None),
      sha256 = (\<lambda>m. [of_nat (length m), 171, 205, 239] @ replicate 28 0)\<rparr>"

definition key0 :: CryptoKey where
  "key0 = generateEncryptionKey (replicate 32 7)"

definition iv0 :: "byte list" where
  "iv0 = [1, 2, 3, 4, 5, 6, 7, 8, 9, 10, 11, 12]"

text \<open>A page location without fragment, an empty session storage, and one whose \<open>setItem\<close> throws.\<close>

definition loc0 :: URL where
  "loc0 = \<lparr>url_base = js ''https://tinybox.example/'', url_fragment = None\<rparr>"

definition storage_empty :: storage where
  "storage_empty = \<lparr>items = (\<lambda>name. None), setItem_throws = False\<rparr>"

definition storage_full :: storage where
  "storage_full = \<lparr>items = (\<lambda>name. None), setItem_throws = True\<rparr>"

text \<open>
  The base64 of the key material of \<open>key0\<close>, with and without the final \<open>=\<close> (\<open>atob\<close>
  accepts both), and a page location whose fragment carries the second.
\<close>

definition padded_key :: jsstring where
  "padded_key = js ''BwcHBwcHBwcHBwcHBwcHBwcHBwcHBwcHBwcHBwcHBwc=''"

definition unpadded_key :: jsstring where
  "unpadded_key = js ''BwcHBwcHBwcHBwcHBwcHBwcHBwcHBwcHBwcHBwcHBwc''"

definition link_loc :: URL where
  "link_loc = \<lparr>url_base = js ''https://tinybox.example/'',
               url_fragment = Some (js ''key=BwcHBwcHBwcHBwcHBwcHBwcHBwcHBwcHBwcHBwcHBwc'')\<rparr>"

text \<open>The base64 of 32 bytes \<open>9\<close>: the key string of the key generated from them.\<close>

definition generated_key :: jsstring where
  "generated_key = js ''CQkJCQkJCQkJCQkJCQkJCQkJCQkJCQkJCQkJCQkJCQk=''"

text \<open>
  One metadata text with a parser that knows it, and a record whose metadata was encrypted
  under another key: its bytes, base64 \<open>AAAA\<close>, do not start with the key material of
  \<open>key0\<close>.
\<close>

definition meta_text :: jsstring where
  "meta_text = js ''{\"fileName\":\"a.txt\",\"fileSize\":10,\"uploadDate\":\"T0\"}''"

definition toy_parse :: "jsstring \<Rightarrow> json option" where
  "toy_parse s =
     (if s = meta_text
      then Some (JObject [(js ''fileName'', JString (js ''a.txt'')),
                          (js ''fileSize'', JNumber 10),
                          (js ''uploadDate'', JString (js ''T0''))])
      else None)"

definition foreign_record :: listed_file where
  "foreign_record =
     \<lparr>file_id = js ''id-1'', encryptedMetadata = js ''AAAA'', metadataIv = js ''AAAA'',
      fileIv = js ''AAAA'', uploadedAt = 7\<rparr>"

text \<open>
  A UUID test in the shape of Zod's pattern (hexadecimal digits in groups of 8, 4, 4, 4
  and 12, joined by hyphens), a \<open>path.join\<close> that puts \<open>/\<close> between its parts, and a server
  without files.
\<close>

definition hex_unit :: "code_unit \<Rightarrow> bool" where
  "hex_unit c \<longleftrightarrow>
     (48 \<le> unat c \<and> unat c \<le> 57) \<or> (65 \<le> unat c \<and> unat c \<le> 70) \<or> (97 \<le> unat c \<and> unat c \<le> 102)"

definition uuid_shape :: "jsstring \<Rightarrow> bool" where
  "uuid_shape s \<longleftrightarrow>
     length s = 36
     \<and> list_all (\<lambda>(i, c). if i \<in> {8, 13, 18, 23} then c = 45 else hex_unit c) (zip [0..<36] s)"

definition slash_join :: "jsstring list \<Rightarrow> jsstring" where
  "slash_join parts = foldr (\<lambda>p acc. if acc = [] then p else p @ 47 # acc) parts []"

definition empty_server :: server where
  "empty_server = \<lparr>srv_db = Rows [], srv_cwd = js ''/app'', srv_files = (\<lambda>path. None)\<rparr>"

section \<open>Base64 round trip\<close>

lemma unat_unit_of: "n < 65536 \<Longrightarrow> unat (unit_of n) = n"
  by (simp add: unit_of_def unat_of_nat)

lemma unat_byte_of: "n < 256 \<Longrightarrow> unat (byte_of n) = n"
  by (simp add: byte_of_def unat_of_nat)

lemma b64_code_lt: "b64_code i < 128"
  unfolding b64_code_def by (cases "i < 62") auto

lemma b64_index_code: "i < 64 \<Longrightarrow> b64_index (b64_code i) = Some i"
  unfolding b64_code_def b64_index_def by (auto split: if_splits)

lemma unat_b64_char: "unat (b64_char i) = b64_code i"
  unfolding b64_char_def using b64_code_lt [of i] by (intro unat_unit_of) simp

lemma b64_value_char: "i < 64 \<Longrightarrow> b64_value (b64_char i) = Some i"
  by (simp add: b64_value_def unat_b64_char b64_index_code)

lemma b64_char_not_pad: "b64_char i \<noteq> 61"
proof
  assume "b64_char i = 61"
  then have "unat (b64_char i) = unat (61 :: 16 word)" by simp
  then have "b64_code i = 61" by (simp add: unat_b64_char)
  then show False unfolding b64_code_def by (auto split: if_splits)
qed

lemma b64_char_not_ws: "\<not> is_ascii_whitespace (b64_char i)"
proof
  assume "is_ascii_whitespace (b64_char i)"
  then have "unat (b64_char i) \<in> {9, 10, 12, 13, 32}"
    unfolding is_ascii_whitespace_def by auto
  then have "b64_code i \<in> {9, 10, 12, 13, 32}" by (simp add: unat_b64_char)
  then show False unfolding b64_code_def by (auto split: if_splits)
qed

lemma unat_byte_lt: "unat (a :: byte) < 256"
  using unsigned_less [of a, where ?'a = nat] by simp

lemma byte_of_unat: "byte_of (unat a) = a"
  by (simp add: byte_of_def)

lemma unit_of_unat: "unit_of (unat c) = c"
  by (simp add: unit_of_def)

lemma horner_div: "b < k \<Longrightarrow> (a * k + b) div k = (a::nat)"
  by simp

lemma horner_mod: "b < k \<Longrightarrow> (a * k + b) mod k = (b::nat)"
  by simp

lemma div_lt_pow: "n < k * m \<Longrightarrow> n div k < (m::nat)"
  by (simp add: less_mult_imp_div_less mult.commute)

lemma horner_lt: "a < m \<Longrightarrow> b < k \<Longrightarrow> a * k + b < m * (k::nat)"
proof -
  assume "a < m" "b < k"
  then have "a * k + b < a * k + k" by simp
  also have "\<dots> = (a + 1) * k" by simp
  also have "\<dots> \<le> m * k" using \<open>a < m\<close> by (intro mult_le_mono1) simp
  finally show ?thesis .
qed

lemma sextets3_lt:
  assumes "a < 256" "b < 256" "c < 256" and n: "n = (a * 256 + b) * 256 + (c::nat)"
  shows "n div 64 div 64 div 64 < 64"
proof -
  have "a * 256 + b < 256 * 256" using assms horner_lt by blast
  then have "(a * 256 + b) * 256 + c < 256 * 256 * 256" using assms horner_lt by blast
  then have "n < 16777216" using n by simp
  then show ?thesis by simp
qed

lemma sextets2_lt:
  assumes "a < 256" "b < 256" and n: "n = (a * 256 + b) * (4::nat)"
  shows "n div 64 div 64 < 64"
proof -
  have "a * 256 + b < 256 * 256" using assms horner_lt by blast
  then have "n < 262144" using n by simp
  then show ?thesis by simp
qed

lemma sextets_lt: "v \<in> set (b64_sextets bs) \<Longrightarrow> v < 64"
proof (induction bs arbitrary: v rule: b64_sextets.induct)
  case (1 a b c rest)
  define n where "n = (unat a * 256 + unat b) * 256 + unat c"
  have "n div 64 div 64 div 64 < 64"
    using unat_byte_lt [of a] unat_byte_lt [of b] unat_byte_lt [of c] n_def by (rule sextets3_lt)
  moreover have "v \<in> set [n div 64 div 64 div 64, n div 64 div 64 mod 64, n div 64 mod 64, n mod 64]
     \<or> v \<in> set (b64_sextets rest)"
    using "1.prems" by (simp only: b64_sextets.simps Let_def n_def set_append Un_iff)
  ultimately show ?case using "1.IH" by auto
next
  case (2 a b)
  define n where "n = (unat a * 256 + unat b) * 4"
  have "n div 64 div 64 < 64"
    using unat_byte_lt [of a] unat_byte_lt [of b] n_def by (rule sextets2_lt)
  moreover have "v \<in> set [n div 64 div 64, n div 64 mod 64, n mod 64]"
    using "2.prems" by (simp only: b64_sextets.simps Let_def n_def)
  ultimately show ?case by auto
next
  case (3 a)
  define n where "n = unat a * 16"
  have "n < 4096" using unat_byte_lt [of a] by (simp add: n_def)
  then have "n div 64 < 64" by simp
  moreover have "v \<in> set [n div 64, n mod 64]"
    using "3.prems" by (simp only: b64_sextets.simps Let_def n_def)
  ultimately show ?case by auto
qed simp

lemma regroup3: "((n div 64 div 64 div 64 * 64 + n div 64 div 64 mod 64) * 64 + n div 64 mod 64) * 64 + n mod 64 = (n::nat)"
  by simp

lemma regroup2: "(n div 64 div 64 * 64 + n div 64 mod 64) * 64 + n mod 64 = (n::nat)"
  by simp

lemma regroup1: "n div 64 * 64 + n mod 64 = (n::nat)"
  by simp

lemma b64_bytes_sextets: "b64_bytes (b64_sextets bs) = bs"
proof (induction bs rule: b64_sextets.induct)
  case (1 a b c rest)
  define n where "n = (unat a * 256 + unat b) * 256 + unat c"
  have lt: "unat a < 256" "unat b < 256" "unat c < 256"
    by (rule unat_byte_lt)+
  have "n mod 256 = unat c" "n div 256 = unat a * 256 + unat b"
    unfolding n_def using lt by (simp_all only: horner_div horner_mod)
  then have parts: "n div 256 div 256 = unat a" "n div 256 mod 256 = unat b" "n mod 256 = unat c"
    using lt by (simp_all only: horner_div horner_mod)
  have "b64_bytes (b64_sextets (a # b # c # rest)) =
        [byte_of (n div 256 div 256), byte_of (n div 256 mod 256), byte_of (n mod 256)]
          @ b64_bytes (b64_sextets rest)"
    by (simp only: b64_sextets.simps b64_bytes.simps Let_def n_def [symmetric] append.simps regroup3)
  also have "\<dots> = a # b # c # rest"
    by (simp only: parts byte_of_unat 1 append.simps)
  finally show ?case .
next
  case (2 a b)
  define n where "n = (unat a * 256 + unat b) * 4"
  have lt: "unat a < 256" "unat b < 256"
    by (rule unat_byte_lt)+
  have "n div 4 = unat a * 256 + unat b" unfolding n_def by simp
  then have parts: "n div 4 div 256 = unat a" "n div 4 mod 256 = unat b"
    using lt by (simp_all only: horner_div horner_mod)
  have "b64_bytes (b64_sextets [a, b]) = [byte_of (n div 4 div 256), byte_of (n div 4 mod 256)]"
    by (simp only: b64_sextets.simps b64_bytes.simps Let_def n_def [symmetric] append.simps regroup2)
  also have "\<dots> = [a, b]"
    by (simp only: parts byte_of_unat)
  finally show ?case .
next
  case (3 a)
  define n where "n = unat a * 16"
  have parts: "n div 16 = unat a" by (simp add: n_def)
  have "b64_bytes (b64_sextets [a]) = [byte_of (n div 16)]"
    by (simp only: b64_sextets.simps b64_bytes.simps Let_def n_def [symmetric] regroup1)
  also have "\<dots> = [a]"
    by (simp only: parts byte_of_unat)
  finally show ?case .
qed simp


lemma length_sextets:
  "length (b64_sextets bs) = 4 * (length bs div 3) + (if length bs mod 3 = 0 then 0 else length bs mod 3 + 1)"
proof (induction bs rule: b64_sextets.induct)
  case (1 a b c rest)
  have "length (b64_sextets (a # b # c # rest)) = 4 + length (b64_sextets rest)"
    by (simp only: b64_sextets.simps Let_def length_append) simp
  moreover have "length (a # b # c # rest) div 3 = Suc (length rest div 3)"
    "length (a # b # c # rest) mod 3 = length rest mod 3"
    by simp_all
  ultimately show ?case using 1 by (simp only:) simp
qed (simp_all add: Let_def)

lemma those_map_Some: "(\<And>x. x \<in> set xs \<Longrightarrow> f x = Some (g x)) \<Longrightarrow> those (map f xs) = Some (map g xs)"
  by (induction xs) simp_all

lemma those_b64: "those (map (b64_value \<circ> b64_char) (b64_sextets bs)) = Some (b64_sextets bs)"
proof -
  have "those (map (b64_value \<circ> b64_char) (b64_sextets bs)) = Some (map id (b64_sextets bs))"
    by (rule those_map_Some) (simp add: b64_value_char sextets_lt)
  then show ?thesis by simp
qed

lemma strip_padding_b64:
  assumes "k \<le> 2" and "length xs mod 4 = (4 - k) mod 4" and "xs = [] \<longrightarrow> k = 0"
    and "\<And>x. x \<in> set xs \<Longrightarrow> x \<noteq> 61"
  shows "strip_padding (xs @ replicate k 61) = xs"
proof -
  have nl: "xs \<noteq> [] \<Longrightarrow> last xs \<noteq> 61" using assms(4) last_in_set by blast
  consider "k = 0" | "k = 1" | "k = 2" using assms(1) by linarith
  then show ?thesis
  proof cases
    case 1
    then show ?thesis using nl by (cases "xs = []") (simp_all add: strip_padding_def)
  next
    case 2
    then have "xs \<noteq> []" using assms(3) by auto
    moreover have "length (xs @ replicate k (61 :: code_unit)) mod 4 = 0"
      using assms(2) 2 by (simp add: mod_Suc)
    ultimately show ?thesis using 2 nl by (simp add: strip_padding_def)
  next
    case 3
    then have "xs \<noteq> []" using assms(3) by auto
    moreover have "replicate k (61 :: code_unit) = [61, 61]" using 3 by (simp add: numeral_2_eq_2)
    moreover have "butlast (xs @ [61, 61 :: code_unit]) = xs @ [61]" by (simp add: butlast_append)
    moreover have "length (xs @ replicate k (61 :: code_unit)) mod 4 = 0"
      using assms(2) 3 by (simp add: mod_Suc split: if_splits)
    ultimately show ?thesis by (simp add: strip_padding_def)
  qed
qed

lemma ucast_byte_le: "\<not> 255 < (ucast (b :: byte) :: code_unit)"
proof -
  have "unat (ucast b :: code_unit) = unat b"
    using unat_byte_lt [of b] by (simp add: unsigned_ucast_eq take_bit_nat_eq_self)
  then have "unat (ucast b :: code_unit) < 256" using unat_byte_lt [of b] by simp
  then show ?thesis by (simp add: word_less_nat_alt)
qed

lemma charCodes_fromCharCode: "charCodes (fromCharCode bs) = bs"
  by (simp add: charCodes_def fromCharCode_def ucast_up_ucast_id is_up map_idI)

lemma btoa_fromCharCode:
  "btoa (fromCharCode bs) =
     Inr (map b64_char (b64_sextets bs) @ replicate ((3 - length bs mod 3) mod 3) 61)"
proof -
  have "\<not> (\<exists>c \<in> set (fromCharCode bs). 255 < c)"
    by (auto simp: fromCharCode_def ucast_byte_le)
  then show ?thesis by (simp add: btoa_def charCodes_fromCharCode Let_def)
qed

lemma atob_b64:
  "atob (map b64_char (b64_sextets bs) @ replicate ((3 - length bs mod 3) mod 3) 61) = Inr (fromCharCode bs)"
proof -
  let ?xs = "map b64_char (b64_sextets bs)"
  let ?k = "(3 - length bs mod 3) mod 3"
  have ws: "filter (\<lambda>c. \<not> is_ascii_whitespace c) (?xs @ replicate ?k 61) = ?xs @ replicate ?k 61"
  proof -
    have "\<not> is_ascii_whitespace 61" by (simp add: is_ascii_whitespace_def)
    then show ?thesis by (auto simp: filter_id_conv b64_char_not_ws)
  qed
  have len: "length ?xs = 4 * (length bs div 3) + (if length bs mod 3 = 0 then 0 else length bs mod 3 + 1)"
    by (simp add: length_sextets)
  have m3: "length bs mod 3 = 0 \<or> length bs mod 3 = 1 \<or> length bs mod 3 = 2" by linarith
  have k: "?k \<le> 2" by linarith
  have lm: "length ?xs mod 4 = (4 - ?k) mod 4" using m3 by (auto simp: length_sextets)
  have e: "?xs = [] \<longrightarrow> ?k = 0" using m3 length_sextets [of bs] by (auto split: if_splits)
  have sp: "strip_padding (?xs @ replicate ?k 61) = ?xs"
    using k lm e by (rule strip_padding_b64) (auto simp: b64_char_not_pad)
  have n1: "length ?xs mod 4 \<noteq> 1" using m3 by (auto simp: length_sextets)
  show ?thesis
    unfolding atob_def ws sp Let_def using n1 by (simp add: those_b64 b64_bytes_sextets)
qed

lemma importKey_exportKey:
  assumes "extractable key" and "length (key_material key) = 32"
  shows "exportKey key = Inr (map b64_char (b64_sextets (key_material key)) @ [61])"
    and "importKey (map b64_char (b64_sextets (key_material key)) @ [61]) =
      Inr \<lparr>algorithm_name = ''AES-GCM'', algorithm_length = 256, extractable = True,
           usages = [Encrypt, Decrypt], key_material = key_material key\<rparr>"
proof -
  have k: "(3 - length (key_material key) mod 3) mod 3 = 1" using assms(2) by simp
  show "exportKey key = Inr (map b64_char (b64_sextets (key_material key)) @ [61])"
    using assms(1) k by (simp add: exportKey_def subtle_exportKey_def btoa_fromCharCode)
  have "atob (map b64_char (b64_sextets (key_material key)) @ [61]) = Inr (fromCharCode (key_material key))"
    using atob_b64 [of "key_material key"] k by simp
  then show "importKey (map b64_char (b64_sextets (key_material key)) @ [61]) =
      Inr \<lparr>algorithm_name = ''AES-GCM'', algorithm_length = 256, extractable = True,
           usages = [Encrypt, Decrypt], key_material = key_material key\<rparr>"
    using assms(2) by (simp add: importKey_def charCodes_fromCharCode subtle_importKey_def)
qed

section \<open>Key codec: serialisation and public index\<close>

lemma pad_hex: "padStart 2 48 (toString16 b) = hex2 b"
  by (simp add: padStart_def toString16_def hex2_def hex_digit_def unit_of_def numeral_2_eq_2)

lemma generateKeyHash_hex2:
  "generateKeyHash sc ks = concat (map hex2 (take 4 (sha256 sc (TextEncoder_encode ks))))"
  by (simp add: generateKeyHash_def pad_hex Let_def)

lemma length_concat_hex2: "length (concat (map hex2 bs)) = 2 * length bs"
  by (induction bs) (simp_all add: hex2_def)

lemma hex_digit_range: "d < 16 \<Longrightarrow> hex_digit d \<in> set (js ''0123456789abcdef'')"
proof -
  assume "d < 16"
  then have "d \<in> set [0..<16]" by simp
  then have "d \<in> {0,1,2,3,4,5,6,7,8,9,10,11,12,13,14,15}" 
    by (simp add: upt_rec numeral_nat) 
  then show ?thesis
    by (auto simp: hex_digit_def js_def unit_of_def)
qed

lemma hex2_range: "c \<in> set (hex2 b) \<Longrightarrow> c \<in> set (js ''0123456789abcdef'')"
proof -
  assume "c \<in> set (hex2 b)"
  then have "c = hex_digit (unat b div 16) \<or> c = hex_digit (unat b mod 16)"
    by (auto simp: hex2_def)
  moreover have "unat b div 16 < 16" using unat_byte_lt [of b] by simp
  moreover have "unat b mod 16 < 16" by simp
  ultimately show ?thesis using hex_digit_range by blast
qed

text \<open>
  Claim C5. \<open>generateKeyHash\<close> is a function of the key string alone (given the platform's
  SHA-256): its value is the lower-case hexadecimal rendering of the first four bytes of the
  SHA-256 digest of the UTF-8 bytes of the key string, always eight characters long, each a
  hexadecimal digit. The digest being 32 bytes long is the assumption on the platform.
\<close>

theorem key_index_shape:
  assumes "\<And>m. length (sha256 sc m) = 32"
  shows "generateKeyHash sc ks = concat (map hex2 (take 4 (sha256 sc (TextEncoder_encode ks))))
       \<and> length (generateKeyHash sc ks) = 8
       \<and> (\<forall>c \<in> set (generateKeyHash sc ks). c \<in> set (js ''0123456789abcdef''))"
proof -
  have "length (generateKeyHash sc ks) = 8"
    by (simp add: generateKeyHash_hex2 length_concat_hex2 assms)
  moreover have "\<forall>c \<in> set (generateKeyHash sc ks). c \<in> set (js ''0123456789abcdef'')"
    unfolding generateKeyHash_hex2 using hex2_range by auto
  ultimately show ?thesis by (simp add: generateKeyHash_hex2)
qed

text \<open>
  Claim C4. For every generated key (32 random bytes), exporting it to base64 succeeds and
  importing the exported string gives the same key back; so the public index computed after
  the round trip is the public index of the original key, both being the hash of the same
  exported string.
\<close>

theorem key_round_trip:
  assumes "length rnd = 32"
  shows "\<exists>keyString key'. exportKey (generateEncryptionKey rnd) = Inr keyString
           \<and> importKey keyString = Inr key'
           \<and> key' = generateEncryptionKey rnd
           \<and> publicIndex sc key' = publicIndex sc (generateEncryptionKey rnd)
           \<and> publicIndex sc key' = Inr (generateKeyHash sc keyString)"
proof -
  let ?k = "generateEncryptionKey rnd"
  have e: "extractable ?k" and l: "length (key_material ?k) = 32"
    using assms by (simp_all add: generateEncryptionKey_def)
  show ?thesis
    using importKey_exportKey [OF e l] by (simp add: publicIndex_def generateEncryptionKey_def)
qed

theorem key_round_trip_witness:
  "\<exists>keyString. exportKey (generateEncryptionKey (replicate 32 7)) = Inr keyString
           \<and> importKey keyString = Inr (generateEncryptionKey (replicate 32 7))
           \<and> publicIndex toy_subtle (generateEncryptionKey (replicate 32 7)) = Inr (generateKeyHash toy_subtle keyString)"
  using key_round_trip [of "replicate 32 7" toy_subtle] by simp

theorem key_index_shape_witness:
  "(\<forall>m. length (sha256 toy_subtle m) = 32)
   \<and> generateKeyHash toy_subtle (js ''AQID'') = js ''04abcdef''
   \<and> length (generateKeyHash toy_subtle (js ''AQID'')) = 8"
proof -
  have h: "\<And>m. length (sha256 toy_subtle m) = 32" by (simp add: toy_subtle_def)
  have "generateKeyHash toy_subtle (js ''AQID'') = js ''04abcdef''"
    by (simp add: toy_subtle_def generateKeyHash_def TextEncoder_encode_def js_def is_high_surrogate_def is_low_surrogate_def utf8_bytes_def byte_of_def unit_of_def padStart_def toString16_def hex_digit_def)
  with h key_index_shape [of toy_subtle "js ''AQID''", OF h] show ?thesis by blast
qed

section \<open>UTF-8 round trip\<close>

lemma utf8_decode_ascii:
  assumes "cp < 128"
  shows "utf8_decode 0 0 128 191 (utf8_bytes cp @ rest) = cp # utf8_decode 0 0 128 191 rest"
proof -
  have u: "unat (byte_of cp) = cp" using assms by (intro unat_byte_of) simp
  have "utf8_bytes cp = [byte_of cp]" using assms by (simp add: utf8_bytes_def)
  then show ?thesis using assms by (simp add: u utf8_first_def)
qed

lemma utf8_decode_two:
  assumes "128 \<le> cp" "cp < 2048"
  shows "utf8_decode 0 0 128 191 (utf8_bytes cp @ rest) = cp # utf8_decode 0 0 128 191 rest"
proof -
  define q where "q = cp div 64"
  define r where "r = cp mod 64"
  have q: "2 \<le> q" "q < 32" using assms by (simp_all add: q_def)
  have r: "r < 64" by (simp add: r_def)
  have cp: "q * 64 + r = cp" by (simp add: q_def r_def)
  have u1: "unat (byte_of (192 + q)) = 192 + q" using q by (intro unat_byte_of) simp
  have u2: "unat (byte_of (128 + r)) = 128 + r" using r by (intro unat_byte_of) simp
  have m1: "(192 + q) mod 32 = q" using horner_mod [of q 32 6] q by simp
  have m2: "(128 + r) mod 64 = r" using horner_mod [of r 64 2] r by simp
  have b: "utf8_bytes cp = [byte_of (192 + q), byte_of (128 + r)]"
    using assms by (simp add: utf8_bytes_def q_def r_def)
  have l: "utf8_lead (192 + q) = Some (q, 1, 128, 191)"
    using q m1 by (simp add: utf8_lead_def)
  have f: "utf8_first (192 + q) = ([], q, 1, 128, 191)"
    using l by (simp add: utf8_first_def)
  show ?thesis
    unfolding b using r by (simp add: u1 u2 f m2 cp)
qed


lemma utf8_decode_three:
  assumes "2048 \<le> cp" "cp < 65536" "\<not> (55296 \<le> cp \<and> cp \<le> 57343)"
  shows "utf8_decode 0 0 128 191 (utf8_bytes cp @ rest) = cp # utf8_decode 0 0 128 191 rest"
proof -
  define d where "d = cp div 64"
  define r where "r = cp mod 64"
  define q2 where "q2 = d div 64"
  define q1 where "q1 = d mod 64"
  have r: "r < 64" and q1: "q1 < 64" by (simp_all add: r_def q1_def)
  have cp: "d * 64 + r = cp" by (simp add: d_def r_def)
  have d: "q2 * 64 + q1 = d" by (simp add: q2_def q1_def)
  have dr: "32 \<le> d" "d < 1024" using assms by (simp_all add: d_def)
  have q2: "q2 < 16" using dr by (simp add: q2_def)
  have lo: "q2 = 0 \<Longrightarrow> 32 \<le> q1" using d dr by simp
  have "13 * 64 + q1 = d \<Longrightarrow> q1 < 32" using assms(3) cp r q1 by auto
  then have hi: "q2 = 13 \<Longrightarrow> q1 < 32" using d by simp
  have u1: "unat (byte_of (224 + q2)) = 224 + q2" using q2 by (intro unat_byte_of) simp
  have u2: "unat (byte_of (128 + q1)) = 128 + q1" using q1 by (intro unat_byte_of) simp
  have u3: "unat (byte_of (128 + r)) = 128 + r" using r by (intro unat_byte_of) simp
  have m1: "(224 + q2) mod 16 = q2" using horner_mod [of q2 16 14] q2 by simp
  have m2: "(128 + q1) mod 64 = q1" using horner_mod [of q1 64 2] q1 by simp
  have m3: "(128 + r) mod 64 = r" using horner_mod [of r 64 2] r by simp
  have b: "utf8_bytes cp = [byte_of (224 + q2), byte_of (128 + q1), byte_of (128 + r)]"
    using assms by (simp add: utf8_bytes_def q2_def q1_def d_def r_def)
  have f: "utf8_first (224 + q2) =
      ([], q2, 2, if q2 = 0 then 160 else 128, if q2 = 13 then 159 else 191)"
    using q2 m1 by (simp add: utf8_first_def utf8_lead_def)
  have in_range: "(if q2 = 0 then 160 else 128) \<le> 128 + q1"
    "128 + q1 \<le> (if q2 = 13 then 159 else 191)"
    using lo hi q1 by auto
  have s1: "utf8_decode 0 0 128 191 (utf8_bytes cp @ rest) =
      utf8_decode q2 2 (if q2 = 0 then 160 else 128) (if q2 = 13 then 159 else 191)
        (byte_of (128 + q1) # byte_of (128 + r) # rest)"
    unfolding b by (simp add: u1 f)
  also have "\<dots> = utf8_decode (q2 * 64 + q1) 1 128 191 (byte_of (128 + r) # rest)"
    using in_range by (simp add: u2 m2)
  also have "\<dots> = (d * 64 + r) # utf8_decode 0 0 128 191 rest"
    using r by (simp add: u3 m3 d)
  finally show ?thesis by (simp add: cp)
qed

lemma utf8_decode_four:
  assumes "65536 \<le> cp" "cp < 1114112"
  shows "utf8_decode 0 0 128 191 (utf8_bytes cp @ rest) = cp # utf8_decode 0 0 128 191 rest"
proof -
  define d1 where "d1 = cp div 64"
  define r where "r = cp mod 64"
  define d2 where "d2 = d1 div 64"
  define q1 where "q1 = d1 mod 64"
  define q3 where "q3 = d2 div 64"
  define q2 where "q2 = d2 mod 64"
  have r: "r < 64" and q1: "q1 < 64" and q2: "q2 < 64" by (simp_all add: r_def q1_def q2_def)
  have cp: "d1 * 64 + r = cp" by (simp add: d1_def r_def)
  have d1: "d2 * 64 + q1 = d1" by (simp add: d2_def q1_def)
  have d2: "q3 * 64 + q2 = d2" by (simp add: q3_def q2_def)
  have d1r: "1024 \<le> d1" "d1 < 17408" using assms by (simp_all add: d1_def)
  have d2r: "16 \<le> d2" "d2 < 272" using d1r by (simp_all add: d2_def)
  have q3: "q3 < 5" using d2r by (simp add: q3_def)
  have lo: "q3 = 0 \<Longrightarrow> 16 \<le> q2" using d2 d2r by simp
  have hi: "q3 = 4 \<Longrightarrow> q2 < 16" using d2 d2r by simp
  have u1: "unat (byte_of (240 + q3)) = 240 + q3" using q3 by (intro unat_byte_of) simp
  have u2: "unat (byte_of (128 + q2)) = 128 + q2" using q2 by (intro unat_byte_of) simp
  have u3: "unat (byte_of (128 + q1)) = 128 + q1" using q1 by (intro unat_byte_of) simp
  have u4: "unat (byte_of (128 + r)) = 128 + r" using r by (intro unat_byte_of) simp
  have m1: "(240 + q3) mod 8 = q3" using horner_mod [of q3 8 30] q3 by simp
  have m2: "(128 + q2) mod 64 = q2" using horner_mod [of q2 64 2] q2 by simp
  have m3: "(128 + q1) mod 64 = q1" using horner_mod [of q1 64 2] q1 by simp
  have m4: "(128 + r) mod 64 = r" using horner_mod [of r 64 2] r by simp
  have b: "utf8_bytes cp =
      [byte_of (240 + q3), byte_of (128 + q2), byte_of (128 + q1), byte_of (128 + r)]"
    using assms by (simp add: utf8_bytes_def q3_def q2_def q1_def d2_def d1_def r_def)
  have f: "utf8_first (240 + q3) =
      ([], q3, 3, if q3 = 0 then 144 else 128, if q3 = 4 then 143 else 191)"
    using q3 m1 by (simp add: utf8_first_def utf8_lead_def)
  have in_range: "(if q3 = 0 then 144 else 128) \<le> 128 + q2"
    "128 + q2 \<le> (if q3 = 4 then 143 else 191)"
    using lo hi q2 by auto
  have "utf8_decode 0 0 128 191 (utf8_bytes cp @ rest) =
      utf8_decode q3 3 (if q3 = 0 then 144 else 128) (if q3 = 4 then 143 else 191)
        (byte_of (128 + q2) # byte_of (128 + q1) # byte_of (128 + r) # rest)"
    unfolding b by (simp add: u1 f)
  also have "\<dots> = utf8_decode (q3 * 64 + q2) 2 128 191
        (byte_of (128 + q1) # byte_of (128 + r) # rest)"
    using in_range by (simp add: u2 m2)
  also have "\<dots> = utf8_decode (d2 * 64 + q1) 1 128 191 (byte_of (128 + r) # rest)"
    using q1 by (simp add: u3 m3 d2)
  also have "\<dots> = (d1 * 64 + r) # utf8_decode 0 0 128 191 rest"
    using r by (simp add: u4 m4 d1)
  finally show ?thesis by (simp add: cp)
qed

lemma utf8_decode_bytes:
  assumes "scalar_value cp"
  shows "utf8_decode 0 0 128 191 (utf8_bytes cp @ rest) = cp # utf8_decode 0 0 128 191 rest"
proof -
  consider "cp < 128" | "128 \<le> cp" "cp < 2048" | "2048 \<le> cp" "cp < 65536" | "65536 \<le> cp"
    by linarith
  then show ?thesis
  proof cases
    case 1 then show ?thesis by (rule utf8_decode_ascii)
  next
    case 2 then show ?thesis by (rule utf8_decode_two)
  next
    case 3 then show ?thesis using assms by (intro utf8_decode_three) (simp_all add: scalar_value_def)
  next
    case 4 then show ?thesis using assms by (intro utf8_decode_four) (simp_all add: scalar_value_def)
  qed
qed

lemma utf8_decode_encode:
  "(\<And>cp. cp \<in> set cps \<Longrightarrow> scalar_value cp) \<Longrightarrow>
   utf8_decode 0 0 128 191 (concat (map utf8_bytes cps)) = cps"
  by (induction cps) (simp_all add: utf8_decode_bytes)


lemma unat_unit_lt: "unat (c :: code_unit) < 65536"
  using unsigned_less [of c, where ?'a = nat] by simp

lemma to_scalars_scalar: "cp \<in> set (to_scalars s) \<Longrightarrow> scalar_value cp"
proof (induction s arbitrary: cp rule: to_scalars.induct)
  case 1
  then show ?case by simp
next
  case (2 c)
  then show ?case
    using unat_unit_lt [of c]
    by (auto simp: scalar_value_def is_high_surrogate_def is_low_surrogate_def split: if_splits)
next
  case (3 c d rest)
  have pair: "is_high_surrogate c \<Longrightarrow> is_low_surrogate d \<Longrightarrow>
      scalar_value (65536 + (unat c - 55296) * 1024 + (unat d - 56320))"
  proof -
    assume "is_high_surrogate c" "is_low_surrogate d"
    then have "unat c - 55296 \<le> 1023" "unat d - 56320 \<le> 1023"
      unfolding is_high_surrogate_def is_low_surrogate_def by linarith+
    then have "(unat c - 55296) * 1024 \<le> 1023 * 1024" "unat d - 56320 \<le> 1023"
      by simp_all
    then show ?thesis by (simp add: scalar_value_def)
  qed
  have single: "\<not> is_high_surrogate c \<Longrightarrow> \<not> is_low_surrogate c \<Longrightarrow> scalar_value (unat c)"
    using unat_unit_lt [of c]
    by (auto simp: scalar_value_def is_high_surrogate_def is_low_surrogate_def)
  have repl: "scalar_value 65533" by (simp add: scalar_value_def)
  from "3.prems" "3.IH" pair single repl show ?case
    by (auto split: if_splits)
qed

lemma from_scalars_Cons:
  "from_scalars (cp # cps) =
     (if cp < 65536 then [unit_of cp]
      else [unit_of (55296 + (cp - 65536) div 1024), unit_of (56320 + (cp - 65536) mod 1024)])
     @ from_scalars cps"
  by (simp add: from_scalars_def)

lemma from_scalars_Nil: "from_scalars [] = []"
  by (simp add: from_scalars_def)

lemma from_scalars_pair:
  assumes "is_high_surrogate c" "is_low_surrogate d"
  shows "from_scalars ((65536 + (unat c - 55296) * 1024 + (unat d - 56320)) # cps) =
     c # d # from_scalars cps"
proof -
  define h where "h = unat c - 55296"
  define l where "l = unat d - 56320"
  have hl: "l < 1024" "55296 + h = unat c" "56320 + l = unat d"
    using assms by (auto simp: h_def l_def is_high_surrogate_def is_low_surrogate_def)
  have "(65536 + h * 1024 + l - 65536) div 1024 = h" "(65536 + h * 1024 + l - 65536) mod 1024 = l"
    using hl(1) by simp_all
  then show ?thesis
    unfolding h_def [symmetric] l_def [symmetric]
    by (simp add: from_scalars_Cons hl unit_of_unat)
qed

lemma from_to_scalars: "isWellFormed s \<Longrightarrow> from_scalars (to_scalars s) = s"
proof (induction s rule: to_scalars.induct)
  case 1
  then show ?case by (simp add: from_scalars_Nil)
next
  case (2 c)
  then show ?case
    using unat_unit_lt [of c] by (simp add: from_scalars_Cons from_scalars_Nil unit_of_unat)
next
  case (3 c d rest)
  show ?case
  proof (cases "is_high_surrogate c")
    case True
    with "3.prems" have d: "is_low_surrogate d" and wf: "isWellFormed rest" by simp_all
    with True "3.IH"(1) have "from_scalars (to_scalars rest) = rest" by simp
    with True d show ?thesis by (simp add: from_scalars_pair)
  next
    case False
    with "3.prems" have c: "\<not> is_low_surrogate c" and wf: "isWellFormed (d # rest)" by simp_all
    with False "3.IH"(4) have "from_scalars (to_scalars (d # rest)) = d # rest" by simp
    with False c show ?thesis
      using unat_unit_lt [of c] by (simp add: from_scalars_Cons unit_of_unat)
  qed
qed

lemma strip_bom_to_scalars:
  assumes "s = [] \<or> hd s \<noteq> 65279"
  shows "strip_bom (to_scalars s) = to_scalars s"
proof (cases s rule: to_scalars.cases)
  case 1
  then show ?thesis by (simp add: strip_bom_def)
next
  case (2 c)
  with assms have "unat c \<noteq> 65279"
    by (metis list.sel(1) not_Cons_self2 unit_of_unat unit_of_def of_nat_numeral)
  with 2 show ?thesis by (simp add: strip_bom_def)
next
  case (3 c d rest)
  with assms have "unat c \<noteq> 65279"
    by (metis list.sel(1) list.distinct(1) unit_of_unat unit_of_def of_nat_numeral)
  with 3 show ?thesis by (simp add: strip_bom_def)
qed

lemma text_round_trip: 
  assumes "isWellFormed s" "s = [] \<or> hd s \<noteq> 65279"
  shows "TextDecoder_decode (TextEncoder_encode s) = s"
  using assms
  by (simp add: TextDecoder_decode_def TextEncoder_encode_def utf8_decode_encode
      to_scalars_scalar strip_bom_to_scalars from_to_scalars)

section \<open>Encryption round trip\<close>

lemma toy_subtle_correct: "aes_gcm_correct toy_subtle"
  by (simp add: aes_gcm_correct_def toy_subtle_def)

lemma key0_aes_gcm: "aes_gcm_key key0"
  by (simp add: aes_gcm_key_def key0_def generateEncryptionKey_def)

lemma atob_btoa_bytes:
  "btoa (fromCharCode bs) = Inr s \<Longrightarrow> atob s = Inr (fromCharCode bs)"
  by (auto simp: btoa_fromCharCode atob_b64)

lemma btoa_bytes_ok: "\<exists>s. btoa (fromCharCode bs) = Inr s"
  by (simp add: btoa_fromCharCode)

lemma decrypt_encrypt:
  assumes "aes_gcm_correct sc" "aes_gcm_key key"
  shows "\<exists>c. subtle_encrypt sc iv key plain = Inr c \<and> subtle_decrypt sc iv key c = Inr plain"
  using assms by (simp add: aes_gcm_correct_def aes_gcm_key_def subtle_encrypt_def subtle_decrypt_def)

lemma decryptText_encryptText:
  assumes "aes_gcm_correct sc" "aes_gcm_key key"
  shows "\<exists>encryptedData ivString.
           encryptText sc iv text key = Inr (encryptedData, ivString)
         \<and> atob ivString = Inr (fromCharCode iv)
         \<and> decryptText sc encryptedData key ivString
             = Inr (TextDecoder_decode (TextEncoder_encode text))"
proof -
  obtain c where c: "subtle_encrypt sc iv key (TextEncoder_encode text) = Inr c"
      "subtle_decrypt sc iv key c = Inr (TextEncoder_encode text)"
    using decrypt_encrypt [OF assms] by blast
  obtain ed where ed: "btoa (fromCharCode c) = Inr ed" using btoa_bytes_ok by blast
  obtain ivs where ivs: "btoa (fromCharCode iv) = Inr ivs" using btoa_bytes_ok by blast
  have e: "encryptText sc iv text key = Inr (ed, ivs)"
    by (simp add: encryptText_def c ed ivs)
  have d: "decryptText sc ed key ivs = Inr (TextDecoder_decode (TextEncoder_encode text))"
    by (simp add: decryptText_def atob_btoa_bytes [OF ed] atob_btoa_bytes [OF ivs]
        charCodes_fromCharCode c)
  from e d atob_btoa_bytes [OF ivs] show ?thesis by blast
qed

text \<open>
  Claim C1 (amended). Under a correct AES-GCM and for every key with both usages and every
  nonce drawn, \<open>encryptFile\<close> followed by \<open>decryptData\<close> with the same key and the returned
  nonce gives the payload back, for every byte payload. \<open>encryptText\<close> followed by
  \<open>decryptText\<close> gives the text back for every well-formed string (no unpaired surrogate)
  that does not start with U+FEFF; the returned nonce string is the base64 of the nonce
  drawn. \<open>JSON.stringify\<close> output, the only text the repository encrypts, is of that kind.
\<close>

theorem encrypt_decrypt_round_trip:
  assumes "aes_gcm_correct sc" and "aes_gcm_key key"
  shows "(isWellFormed text \<and> (text = [] \<or> hd text \<noteq> 65279) \<longrightarrow>
            (\<exists>encryptedData ivString.
                encryptText sc iv text key = Inr (encryptedData, ivString)
              \<and> atob ivString = Inr (fromCharCode iv)
              \<and> decryptText sc encryptedData key ivString = Inr text))
       \<and> (\<exists>encryptedData.
                encryptFile sc iv fileData key = Inr (encryptedData, iv)
              \<and> decryptData sc encryptedData key iv = Inr fileData)"
proof -
  have "\<exists>encryptedData. encryptFile sc iv fileData key = Inr (encryptedData, iv)
              \<and> decryptData sc encryptedData key iv = Inr fileData"
    using decrypt_encrypt [OF assms, of iv fileData]
    by (auto simp: encryptFile_def decryptData_def)
  moreover have "\<exists>encryptedData ivString.
                encryptText sc iv text key = Inr (encryptedData, ivString)
              \<and> atob ivString = Inr (fromCharCode iv)
              \<and> decryptText sc encryptedData key ivString = Inr text"
    if "isWellFormed text" "text = [] \<or> hd text \<noteq> 65279"
    using decryptText_encryptText [OF assms, of iv "text"] text_round_trip [OF that] by simp
  ultimately show ?thesis by blast
qed

theorem encrypt_decrypt_round_trip_witness:
  "(\<exists>encryptedData ivString.
       encryptText toy_subtle iv0 (js ''{\"fileName\":\"a.txt\"}'') key0 = Inr (encryptedData, ivString)
     \<and> atob ivString = Inr (fromCharCode iv0)
     \<and> decryptText toy_subtle encryptedData key0 ivString = Inr (js ''{\"fileName\":\"a.txt\"}''))
   \<and> (\<exists>encryptedData.
       encryptFile toy_subtle iv0 [1, 2, 3] key0 = Inr (encryptedData, iv0)
     \<and> decryptData toy_subtle encryptedData key0 iv0 = Inr [1, 2, 3])"
proof -
  have wf: "isWellFormed (js ''{\"fileName\":\"a.txt\"}'')
      \<and> (js ''{\"fileName\":\"a.txt\"}'' = [] \<or> hd (js ''{\"fileName\":\"a.txt\"}'') \<noteq> 65279)"
    by (simp add: js_def is_high_surrogate_def is_low_surrogate_def)
  show ?thesis
    using encrypt_decrypt_round_trip [OF toy_subtle_correct key0_aes_gcm,
        of "js ''{\"fileName\":\"a.txt\"}''" iv0 "[1, 2, 3]"] wf
    by blast
qed

text \<open>
  The claim as stated (every text payload) fails: the text consisting of U+FEFF alone is
  encrypted and decrypted without error, and comes back as the empty string, because
  \<open>TextDecoder\<close> drops a leading byte order mark.
\<close>

theorem text_round_trip_counterexample:
  "(case encryptText toy_subtle iv0 [65279] key0 of
      Inl e \<Rightarrow> Inl e
    | Inr (encryptedData, ivString) \<Rightarrow> decryptText toy_subtle encryptedData key0 ivString)
   = Inr []"
proof -
  have "TextDecoder_decode (TextEncoder_encode [65279]) = []"
    by (simp add: TextDecoder_decode_def TextEncoder_encode_def is_high_surrogate_def
        is_low_surrogate_def utf8_bytes_def byte_of_def utf8_first_def utf8_lead_def
        strip_bom_def from_scalars_def)
  then show ?thesis
    using decryptText_encryptText [OF toy_subtle_correct key0_aes_gcm, of iv0 "[65279]"]
    by auto
qed

section \<open>Key manager\<close>

lemma importKey_nonempty: "importKey ks = Inr key \<Longrightarrow> ks \<noteq> []"
  by (auto simp: importKey_def atob_def strip_padding_def fromCharCode_def charCodes_def
      subtle_importKey_def split: sum.splits if_splits)

text \<open>One \<open>setKey\<close> call run alone, by what \<open>importKey\<close> and the storage getter do.\<close>

lemma setKey_cases:
  "setKey sc ks w =
     (case importKey ks of
        Inl e \<Rightarrow> (Inl e, w)
      | Inr key \<Rightarrow>
          (case sessionStorage w of
             Denied \<Rightarrow>
               (Inl SecurityError,
                w\<lparr>km_key := Some key, km_keyString := Some ks,
                  km_keyHash := Some (generateKeyHash sc ks)\<rparr>)
           | Missing \<Rightarrow>
               (Inr (),
                w\<lparr>km_key := Some key, km_keyString := Some ks,
                  km_keyHash := Some (generateKeyHash sc ks),
                  encryptionKeyStore := Some key, keyHashStore := Some (generateKeyHash sc ks)\<rparr>)
           | Present st \<Rightarrow>
               (Inr (),
                w\<lparr>km_key := Some key, km_keyString := Some ks,
                  km_keyHash := Some (generateKeyHash sc ks),
                  sessionStorage := Present (if setItem_throws st then st
                     else st\<lparr>items := (items st)(SESSION_STORAGE_KEY \<mapsto> ks)\<rparr>),
                  encryptionKeyStore := Some key, keyHashStore := Some (generateKeyHash sc ks)\<rparr>)))"
proof (cases "importKey ks")
  case (Inl e)
  then show ?thesis by (simp add: setKey_def setKey_import_def)
next
  case (Inr key)
  then have ne: "ks \<noteq> []" by (rule importKey_nonempty)
  show ?thesis
  proof (cases "sessionStorage w")
    case Missing
    with Inr ne show ?thesis
      by (simp add: setKey_def setKey_import_def setKey_publish_def Let_def saveToSessionStorage_def)
  next
    case Denied
    with Inr ne show ?thesis
      by (simp add: setKey_def setKey_import_def setKey_publish_def Let_def saveToSessionStorage_def)
  next
    case (Present st)
    have same: "w\<lparr>sessionStorage := Present st\<rparr> = w" using Present by simp
    show ?thesis
    proof (cases "setItem_throws st")
      case True
      have "w\<lparr>km_key := Some key, km_keyString := Some ks,
                km_keyHash := Some (generateKeyHash sc ks), sessionStorage := Present st,
                encryptionKeyStore := Some key, keyHashStore := Some (generateKeyHash sc ks)\<rparr>
          = (w\<lparr>sessionStorage := Present st\<rparr>)\<lparr>km_key := Some key, km_keyString := Some ks,
                km_keyHash := Some (generateKeyHash sc ks),
                encryptionKeyStore := Some key, keyHashStore := Some (generateKeyHash sc ks)\<rparr>"
        by simp
      with Inr ne Present True same show ?thesis
        by (simp add: setKey_def setKey_import_def setKey_publish_def Let_def
            saveToSessionStorage_def sessionStorage_setItem_def)
    next
      case False
      with Inr ne Present show ?thesis
        by (simp add: setKey_def setKey_import_def setKey_publish_def Let_def
            saveToSessionStorage_def sessionStorage_setItem_def)
    qed
  qed
qed

lemma setKey_Inr_iff:
  "(\<exists>u w'. setKey sc ks w = (Inr u, w'))
     \<longleftrightarrow> (\<exists>key. importKey ks = Inr key) \<and> sessionStorage w \<noteq> Denied"
  by (auto simp: setKey_cases split: sum.splits storage_access.splits)

lemma setKey_ok:
  "importKey ks = Inr key \<Longrightarrow> sessionStorage w \<noteq> Denied \<Longrightarrow> \<exists>w'. setKey sc ks w = (Inr (), w')"
  by (auto simp: setKey_cases split: storage_access.splits)

lemma setKey_fields:
  assumes "setKey sc ks w = (Inr u, w')"
  shows "\<exists>key. importKey ks = Inr key \<and> km_key w' = Some key \<and> encryptionKeyStore w' = Some key"
    and "km_keyString w' = Some ks"
    and "km_keyHash w' = Some (generateKeyHash sc ks)"
    and "keyHashStore w' = Some (generateKeyHash sc ks)"
    and "keyLoadedFromExternal w' = keyLoadedFromExternal w"
    and "location w' = location w"
    and "history_back w' = history_back w"
    and "history_forward w' = history_forward w"
    and "sessionStorage w \<noteq> Denied"
    and "sessionStorage w' \<noteq> Denied"
  using assms by (auto simp: setKey_cases split: sum.splits storage_access.splits)


lemma setKey_consistent: "setKey sc ks w = (Inr u, w') \<Longrightarrow> consistent sc w'"
  using setKey_fields(1-4) [of sc ks w u w'] by (auto simp: consistent_def)

lemma setKey_Inl:
  "setKey sc ks w = (Inl e, w') \<Longrightarrow> sessionStorage w \<noteq> Denied \<Longrightarrow> w' = w"
  by (auto simp: setKey_cases split: sum.splits storage_access.splits)

lemma setKey_Inl_frame:
  assumes "setKey sc ks w = (Inl e, w')"
  shows "location w' = location w" and "sessionStorage w' = sessionStorage w"
    and "history_back w' = history_back w" and "history_forward w' = history_forward w"
    and "keyLoadedFromExternal w' = keyLoadedFromExternal w"
  using assms by (auto simp: setKey_cases split: sum.splits storage_access.splits)

lemma setKey_idem: "setKey sc ks w = (r, w') \<Longrightarrow> setKey sc ks w' = (r, w')"
  by (auto simp: setKey_cases split: sum.splits storage_access.splits)

lemma setKey_frame:
  "setKey sc ks (w\<lparr>keyLoadedFromExternal := a, location := l\<rparr>)
     = (fst (setKey sc ks w), (snd (setKey sc ks w))\<lparr>keyLoadedFromExternal := a, location := l\<rparr>)"
  by (auto simp: setKey_cases split: sum.splits storage_access.splits)

lemma loadFromUrl_total: "\<exists>b w'. loadFromUrl sc w = Inr (b, w')"
  by (auto simp: loadFromUrl_def Let_def split: option.splits sum.splits prod.splits)

lemma loadFromUrl_False:
  "loadFromUrl sc w = Inr (False, w') \<Longrightarrow> sessionStorage w \<noteq> Denied \<Longrightarrow> w' = w"
  by (auto simp: loadFromUrl_def Let_def dest: setKey_Inl
      split: option.splits sum.splits prod.splits if_splits)

lemma loadFromUrl_True:
  assumes "loadFromUrl sc w = Inr (True, w')"
  obtains k w1 u where "keyFromUrl w = Some k" "k \<noteq> []" "setKey sc k w = (Inr u, w1)"
    "w' = w1\<lparr>keyLoadedFromExternal := True, location := URL_set_hash [] (location w1)\<rparr>"
  using assms
  by (auto simp: loadFromUrl_def Let_def history_replaceState_def
      split: option.splits sum.splits prod.splits if_splits)


lemma loadFromSession_total:
  "sessionStorage w \<noteq> Denied \<Longrightarrow> \<exists>b w'. loadFromSessionStorage sc w = (Inr b, w')"
  by (auto simp: loadFromSessionStorage_def split: option.splits sum.splits prod.splits storage_access.splits)

lemma loadFromSession_False: "loadFromSessionStorage sc w = (Inr False, w') \<Longrightarrow> w' = w"
  by (auto simp: loadFromSessionStorage_def dest: setKey_Inl
      split: option.splits sum.splits prod.splits if_splits storage_access.splits)

lemma loadFromSession_True:
  assumes "loadFromSessionStorage sc w = (Inr True, w')"
  obtains st k w1 u where "sessionStorage w = Present st" "items st SESSION_STORAGE_KEY = Some k"
    "k \<noteq> []" "setKey sc k w = (Inr u, w1)" "w' = w1\<lparr>keyLoadedFromExternal := True\<rparr>"
  using assms
  by (auto simp: loadFromSessionStorage_def
      split: option.splits sum.splits prod.splits if_splits storage_access.splits)

lemma exportKey_generated:
  assumes "length rnd = 32"
  shows "exportKey (generateEncryptionKey rnd) = Inr (map b64_char (b64_sextets rnd) @ [61])"
    and "importKey (map b64_char (b64_sextets rnd) @ [61]) = Inr (generateEncryptionKey rnd)"
  using importKey_exportKey [of "generateEncryptionKey rnd"] assms
  by (simp_all add: generateEncryptionKey_def)

lemma generateNewKey_ok:
  assumes "length rnd = 32" "sessionStorage w \<noteq> Denied"
  shows "\<exists>w'. generateNewKey sc rnd w = (Inr (), w') \<and> km_key w' = Some (generateEncryptionKey rnd)
     \<and> setKey sc (map b64_char (b64_sextets rnd) @ [61]) w = (Inr (), w')"
proof -
  obtain w' where w': "setKey sc (map b64_char (b64_sextets rnd) @ [61]) w = (Inr (), w')"
    using setKey_ok [OF exportKey_generated(2) [OF assms(1)] assms(2)] by blast
  then have "generateNewKey sc rnd w = (Inr (), w')"
    by (simp add: generateNewKey_def exportKey_generated(1) [OF assms(1)])
  moreover have "km_key w' = Some (generateEncryptionKey rnd)"
    using setKey_fields(1) [OF w'] exportKey_generated(2) [OF assms(1)] by auto
  ultimately show ?thesis using w' by blast
qed


lemma consistent_frame [simp]:
  "consistent sc (w\<lparr>keyLoadedFromExternal := a\<rparr>) = consistent sc w"
  "consistent sc (w\<lparr>location := l\<rparr>) = consistent sc w"
  "consistent sc (w\<lparr>history_back := hb\<rparr>) = consistent sc w"
  "consistent sc (w\<lparr>history_forward := hf\<rparr>) = consistent sc w"
  by (simp_all add: consistent_def split: option.splits)

lemma loadFromUrl_consistent:
  assumes "consistent sc w" "sessionStorage w \<noteq> Denied" "loadFromUrl sc w = Inr (b, w')"
  shows "consistent sc w'"
proof (cases b)
  case True
  with assms(3) obtain k w1 u where "setKey sc k w = (Inr u, w1)"
    "w' = w1\<lparr>keyLoadedFromExternal := True, location := URL_set_hash [] (location w1)\<rparr>"
    by (auto elim: loadFromUrl_True)
  then show ?thesis using setKey_consistent [of sc k w u w1] by simp
next
  case False
  with assms show ?thesis using loadFromUrl_False [of sc w w'] by simp
qed

lemma loadFromSession_consistent:
  assumes "consistent sc w" "loadFromSessionStorage sc w = (Inr b, w')"
  shows "consistent sc w'"
proof (cases b)
  case True
  with assms(2) obtain k w1 u where "setKey sc k w = (Inr u, w1)" "w' = w1\<lparr>keyLoadedFromExternal := True\<rparr>"
    by (auto elim: loadFromSession_True)
  then show ?thesis using setKey_consistent [of sc k w u w1] by simp
next
  case False
  with assms show ?thesis using loadFromSession_False [of sc w w'] by simp
qed



lemma initialize_result:
  assumes "sessionStorage w \<noteq> Denied"
  shows "(\<exists>w1. loadFromUrl sc w = Inr (True, w1) \<and> initialize sc rnd w = (Inr FromUrl, w1))
       \<or> (loadFromUrl sc w = Inr (False, w)
            \<and> (\<exists>w2. loadFromSessionStorage sc w = (Inr True, w2)
                  \<and> initialize sc rnd w = (Inr FromSession, w2)))
       \<or> (loadFromUrl sc w = Inr (False, w) \<and> loadFromSessionStorage sc w = (Inr False, w)
            \<and> initialize sc rnd w =
                (case generateNewKey sc rnd w of
                   (Inl e, w3) \<Rightarrow> (Inl e, w3)
                 | (Inr u, w3) \<Rightarrow> (Inr Generated, w3)))"
proof -
  obtain b1 w1 where u: "loadFromUrl sc w = Inr (b1, w1)" using loadFromUrl_total by blast
  show ?thesis
  proof (cases b1)
    case True
    with u show ?thesis by (simp add: initialize_def)
  next
    case False
    with u assms have w1: "w1 = w" using loadFromUrl_False [of sc w w1] by simp
    obtain b2 w2 where s: "loadFromSessionStorage sc w = (Inr b2, w2)"
      using loadFromSession_total [OF assms] by blast
    show ?thesis
    proof (cases b2)
      case True
      with u s False w1 show ?thesis by (simp add: initialize_def)
    next
      case b2: False
      with s have "w2 = w" using loadFromSession_False [of sc w w2] by simp
      with u s False b2 w1 show ?thesis by (simp add: initialize_def)
    qed
  qed
qed



lemma setKey_snd_consistent:
  assumes "consistent sc w" "sessionStorage w \<noteq> Denied"
  shows "consistent sc (snd (setKey sc ks w))"
proof (cases "setKey sc ks w")
  case (Pair r w')
  show ?thesis
  proof (cases r)
    case (Inl e)
    with Pair assms show ?thesis using setKey_Inl [of sc ks w e w'] by simp
  next
    case (Inr u)
    with Pair show ?thesis using setKey_consistent [of sc ks w u w'] by simp
  qed
qed

lemma generateNewKey_snd_consistent:
  assumes "consistent sc w" "sessionStorage w \<noteq> Denied"
  shows "consistent sc (snd (generateNewKey sc rnd w))"
  using assms setKey_snd_consistent [OF assms]
  by (simp add: generateNewKey_def split: sum.splits)

lemma initialize_snd_consistent:
  assumes "consistent sc w" "sessionStorage w \<noteq> Denied"
  shows "consistent sc (snd (initialize sc rnd w))"
proof -
  from initialize_result [OF assms(2), of sc rnd] consider
      (url) w1 where "loadFromUrl sc w = Inr (True, w1)" "initialize sc rnd w = (Inr FromUrl, w1)"
    | (session) w2 where "loadFromSessionStorage sc w = (Inr True, w2)"
        "initialize sc rnd w = (Inr FromSession, w2)"
    | (gen) "initialize sc rnd w =
                (case generateNewKey sc rnd w of
                   (Inl e, w3) \<Rightarrow> (Inl e, w3)
                 | (Inr u, w3) \<Rightarrow> (Inr Generated, w3))"
    by blast
  then show ?thesis
  proof cases
    case url
    then show ?thesis using loadFromUrl_consistent [OF assms] by simp
  next
    case session
    then show ?thesis using loadFromSession_consistent [OF assms(1)] by simp
  next
    case gen
    have "snd (initialize sc rnd w) = snd (generateNewKey sc rnd w)"
      unfolding gen by (simp split: prod.splits sum.splits)
    then show ?thesis using generateNewKey_snd_consistent [OF assms] by simp
  qed
qed

lemma publish_fields:
  "km_key (snd (setKey_publish sc ks w)) = km_key w"
  "km_keyString (snd (setKey_publish sc ks w)) = km_keyString w"
  by (auto simp: setKey_publish_def Let_def saveToSessionStorage_def sessionStorage_setItem_def
      split: option.splits sum.splits storage_access.splits)

lemma publish_not_Denied:
  assumes "sessionStorage w \<noteq> Denied"
  shows "km_keyHash (snd (setKey_publish sc ks w)) = Some (generateKeyHash sc ks)"
    and "encryptionKeyStore (snd (setKey_publish sc ks w)) = km_key w"
    and "keyHashStore (snd (setKey_publish sc ks w)) = Some (generateKeyHash sc ks)"
  using assms
  by (auto simp: setKey_publish_def Let_def saveToSessionStorage_def sessionStorage_setItem_def
      split: option.splits sum.splits storage_access.splits)

text \<open>
  In every state, under any interleaving: no key without a key string, and the key held is
  what \<open>importKey\<close> makes of the key string held.
\<close>

lemma reachable_fields:
  assumes "reachable sc w"
  shows "(km_key w = None \<longrightarrow> km_keyString w = None)
       \<and> (\<forall>key. km_key w = Some key \<longrightarrow>
             (\<exists>ks. km_keyString w = Some ks \<and> importKey ks = Inr key))"
  using assms
proof induction
  case (constructed st loc)
  then show ?case by (simp add: new_KeyManager_def)
next
  case (imported w keyString w')
  then show ?case by (auto simp: setKey_import_def split: sum.splits)
next
  case (published w keyString key)
  then show ?case by (simp add: publish_fields)
next
  case (flagged w)
  then show ?case by simp
next
  case (navigated w loc behind ahead)
  then show ?case by simp
qed

lemma reachable_setKey: "reachable sc w \<Longrightarrow> reachable sc (snd (setKey sc ks w))"
proof (cases "importKey ks")
  case (Inl e)
  assume "reachable sc w"
  with Inl show ?thesis by (simp add: setKey_def setKey_import_def)
next
  case (Inr key)
  assume r: "reachable sc w"
  let ?w1 = "w\<lparr>km_key := Some key, km_keyString := Some ks\<rparr>"
  have i: "setKey_import ks w = Inr ?w1" using Inr by (simp add: setKey_import_def)
  have "reachable sc ?w1" using r i by (rule reachable.imported)
  then have "reachable sc (snd (setKey_publish sc ks ?w1))" using Inr by (rule reachable.published)
  then show ?thesis using i by (simp add: setKey_def)
qed

lemma reachable_generateNewKey: "reachable sc w \<Longrightarrow> reachable sc (snd (generateNewKey sc rnd w))"
  using reachable_setKey [of sc w] by (simp add: generateNewKey_def split: sum.splits)

lemma reachable_loadFromUrl:
  assumes "reachable sc w" "loadFromUrl sc w = Inr (b, w')"
  shows "reachable sc w'"
proof -
  have nav: "reachable sc (v\<lparr>keyLoadedFromExternal := True, location := l\<rparr>)" if "reachable sc v" for v l
  proof -
    have "reachable sc ((v\<lparr>keyLoadedFromExternal := True\<rparr>)\<lparr>location := l,
        history_back := history_back v, history_forward := history_forward v\<rparr>)"
      using reachable.flagged [OF that] by (rule reachable.navigated)
    then show ?thesis by simp
  qed
  have "w' = w \<or> (\<exists>k. w' = snd (setKey sc k w))
      \<or> (\<exists>k. w' = (snd (setKey sc k w))\<lparr>keyLoadedFromExternal := True,
            location := URL_set_hash [] (location (snd (setKey sc k w)))\<rparr>)"
    using assms(2)
    by (auto simp: loadFromUrl_def Let_def history_replaceState_def
        split: option.splits sum.splits prod.splits if_splits)
       (metis snd_conv)+
  then show ?thesis using assms(1) reachable_setKey [OF assms(1)] nav by auto
qed

lemma reachable_loadFromSession:
  assumes "reachable sc w"
  shows "reachable sc (snd (loadFromSessionStorage sc w))"
proof -
  have "snd (loadFromSessionStorage sc w) = w
      \<or> (\<exists>k. snd (loadFromSessionStorage sc w) = snd (setKey sc k w))
      \<or> (\<exists>k. snd (loadFromSessionStorage sc w) = (snd (setKey sc k w))\<lparr>keyLoadedFromExternal := True\<rparr>)"
    by (auto simp: loadFromSessionStorage_def
        split: option.splits sum.splits prod.splits if_splits storage_access.splits)
       (metis snd_conv)+
  then show ?thesis
    using assms reachable_setKey [OF assms] reachable.flagged by auto
qed

lemma reachable_initialize:
  assumes "reachable sc w"
  shows "reachable sc (snd (initialize sc rnd w))"
proof -
  obtain b1 w1 where u: "loadFromUrl sc w = Inr (b1, w1)" using loadFromUrl_total by blast
  have r1: "reachable sc w1" using assms u by (rule reachable_loadFromUrl)
  have r2: "reachable sc (snd (loadFromSessionStorage sc w1))"
    using r1 by (rule reachable_loadFromSession)
  have r3: "reachable sc (snd (generateNewKey sc rnd (snd (loadFromSessionStorage sc w1))))"
    using r2 by (rule reachable_generateNewKey)
  show ?thesis
    using u r1 r2 r3 by (auto simp: initialize_def split: prod.splits sum.splits)
qed

text \<open>
  Claim C9 (amended). The operations of the key manager are asynchronous, and \<open>setKey\<close>
  writes its fields in two parts with an \<open>await\<close> in between. What holds in every
  reachable state, under any interleaving, is the pairing of \<open>key\<close> and \<open>keyString\<close>:
  when the key is non-null, the key string is non-null and the key is
  \<open>importKey(keyString)\<close>. \<open>keyHash\<close> and the two stores follow in the second part: when
  that part runs for the key string held, in a page whose storage getter does not throw, it
  leaves all fields consistent. So the state of construction is consistent, and
  \<open>setKey\<close>, \<open>generateNewKey\<close>, \<open>initialize\<close> and the \<open>hashchange\<close> listener, each run
  from a consistent state with no other operation in between and with a storage getter
  that does not throw, leave a consistent state, whether they return or throw.
\<close>

theorem key_manager_invariant:
  "(reachable sc w \<longrightarrow>
      (\<forall>key. km_key w = Some key \<longrightarrow>
         (\<exists>keyString. km_keyString w = Some keyString \<and> importKey keyString = Inr key)))
   \<and> (reachable sc w \<and> km_keyString w = Some keyString \<and> sessionStorage w \<noteq> Denied \<longrightarrow>
        consistent sc (snd (setKey_publish sc keyString w)))
   \<and> consistent sc (new_KeyManager st loc)
   \<and> (consistent sc w \<and> sessionStorage w \<noteq> Denied \<longrightarrow>
        consistent sc (snd (setKey sc keyString w))
      \<and> consistent sc (snd (generateNewKey sc rnd w))
      \<and> consistent sc (snd (initialize sc rnd w))
      \<and> (\<forall>w'. hashChangeListener sc w = Inr w' \<longrightarrow> consistent sc w'))"
proof -
  have pairing: "\<forall>key. km_key w = Some key \<longrightarrow>
         (\<exists>keyString. km_keyString w = Some keyString \<and> importKey keyString = Inr key)"
    if "reachable sc w"
    using reachable_fields [OF that] by blast
  have publish: "consistent sc (snd (setKey_publish sc keyString w))"
    if r: "reachable sc w" and ks: "km_keyString w = Some keyString"
      and nd: "sessionStorage w \<noteq> Denied"
  proof -
    from reachable_fields [OF r] ks obtain key where key: "km_key w = Some key"
      "importKey keyString = Inr key"
      by (cases "km_key w") auto
    show ?thesis
      using key ks publish_fields [of sc keyString w] publish_not_Denied [OF nd, of sc keyString]
      by (simp add: consistent_def)
  qed
  have new: "consistent sc (new_KeyManager st loc)"
    by (simp add: consistent_def new_KeyManager_def)
  have listener: "consistent sc w'"
    if "consistent sc w" "sessionStorage w \<noteq> Denied" "hashChangeListener sc w = Inr w'" for w'
    using that loadFromUrl_consistent [of sc w]
    by (auto simp: hashChangeListener_def split: sum.splits)
  show ?thesis
    using pairing publish new listener setKey_snd_consistent generateNewKey_snd_consistent
      initialize_snd_consistent
    by blast
qed

lemma URL_strip_hash [simp]: "url_fragment (URL_set_hash [] url) = None"
  by (simp add: URL_set_hash_def)













lemma new_manager_loads_nothing:
  "loadFromUrl sc (new_KeyManager st loc0) = Inr (False, new_KeyManager st loc0)"
  "st = Present storage_empty \<or> st = Present storage_full \<or> st = Missing \<Longrightarrow>
     loadFromSessionStorage sc (new_KeyManager st loc0) = (Inr False, new_KeyManager st loc0)"
  by (auto simp: loadFromUrl_def loadFromSessionStorage_def new_KeyManager_def loc0_def
      URL_hash_def storage_empty_def storage_full_def)


lemma loadFromUrl_cases:
  assumes "loadFromUrl sc w = Inr (b, w')"
  shows "(\<not> b \<and> w' = w)
       \<or> (\<exists>k e. \<not> b \<and> keyFromUrl w = Some k \<and> k \<noteq> [] \<and> URL_hash (location w) \<noteq> []
             \<and> hd (URL_hash (location w)) = 35 \<and> setKey sc k w = (Inl e, w'))
       \<or> (\<exists>k u w1. b \<and> keyFromUrl w = Some k \<and> k \<noteq> [] \<and> URL_hash (location w) \<noteq> []
             \<and> hd (URL_hash (location w)) = 35 \<and> setKey sc k w = (Inr u, w1)
             \<and> w' = w1\<lparr>keyLoadedFromExternal := True, location := URL_set_hash [] (location w1)\<rparr>)"
  using assms
  by (auto simp: loadFromUrl_def Let_def history_replaceState_def
      split: option.splits sum.splits prod.splits if_splits)

text \<open>
  Claim C8. \<open>loadFromUrl\<close> never throws; with a missing or empty fragment, or one without
  a non-empty \<open>key\<close> field, it returns \<open>false\<close> and changes nothing; running it again,
  either on the state it left (fragment removed) or with the original location put back,
  gives the same state as running it once. The \<open>hashchange\<close> listener inherits both.
\<close>

theorem loadFromUrl_safe:
  "(\<exists>b w'. loadFromUrl sc w = Inr (b, w'))
   \<and> (url_fragment (location w) = None \<or> url_fragment (location w) = Some []
        \<or> keyFromUrl w = None \<or> keyFromUrl w = Some []
      \<longrightarrow> loadFromUrl sc w = Inr (False, w))
   \<and> (\<forall>b w'. loadFromUrl sc w = Inr (b, w') \<longrightarrow>
         (\<exists>b'. loadFromUrl sc w' = Inr (b', w'))
       \<and> loadFromUrl sc (w'\<lparr>location := location w\<rparr>) = Inr (b, w'))
   \<and> (\<exists>w'. hashChangeListener sc w = Inr w' \<and> hashChangeListener sc w' = Inr w')"
proof -
  have total: "\<exists>b w'. loadFromUrl sc w = Inr (b, w')" by (rule loadFromUrl_total)
  have no_key: "loadFromUrl sc w = Inr (False, w)"
    if "url_fragment (location w) = None \<or> url_fragment (location w) = Some []
        \<or> keyFromUrl w = None \<or> keyFromUrl w = Some []"
    using that by (auto simp: loadFromUrl_def URL_hash_def Let_def split: option.splits)
  have idem: "(\<exists>b'. loadFromUrl sc w' = Inr (b', w'))
       \<and> loadFromUrl sc (w'\<lparr>location := location w\<rparr>) = Inr (b, w')"
    if l: "loadFromUrl sc w = Inr (b, w')" for b w'
  proof -
    from loadFromUrl_cases [OF l] consider
        (same) "\<not> b" "w' = w"
      | (failed) k e where "\<not> b" "keyFromUrl w = Some k" "k \<noteq> []" "URL_hash (location w) \<noteq> []"
          "hd (URL_hash (location w)) = 35" "setKey sc k w = (Inl e, w')"
      | (adopted) k u w1 where "b" "keyFromUrl w = Some k" "k \<noteq> []" "URL_hash (location w) \<noteq> []"
          "hd (URL_hash (location w)) = 35" "setKey sc k w = (Inr u, w1)"
          "w' = w1\<lparr>keyLoadedFromExternal := True, location := URL_set_hash [] (location w1)\<rparr>"
      by blast
    then show ?thesis
    proof cases
      case same
      with l show ?thesis by auto
    next
      case failed
      have loc: "location w' = location w" using setKey_Inl_frame(1) [OF failed(6)] .
      have again: "setKey sc k w' = (Inl e, w')" using failed(6) by (rule setKey_idem)
      have first: "loadFromUrl sc w' = Inr (False, w')"
        using failed(2-5) loc again by (simp add: loadFromUrl_def keyFromUrl_def)
      have "w'\<lparr>location := location w\<rparr> = w'" using loc by simp
      with first failed(1) show ?thesis by auto
    next
      case adopted
      have loc: "location w1 = location w" using setKey_fields(6) [OF adopted(6)] .
      have first: "loadFromUrl sc w' = Inr (False, w')"
        unfolding adopted(7) by (simp add: loadFromUrl_def URL_hash_def)
      have "setKey sc k w1 = (Inr u, w1)" using adopted(6) by (rule setKey_idem)
      then have again: "setKey sc k (w1\<lparr>keyLoadedFromExternal := True, location := location w\<rparr>)
           = (Inr u, w1\<lparr>keyLoadedFromExternal := True, location := location w\<rparr>)"
        by (simp add: setKey_frame)
      have second: "loadFromUrl sc (w'\<lparr>location := location w\<rparr>) = Inr (True, w')"
        unfolding adopted(7) using adopted(2-5) again loc
        by (simp add: loadFromUrl_def keyFromUrl_def history_replaceState_def)
      from first second adopted(1) show ?thesis by auto
    qed
  qed
  have listener: "\<exists>w'. hashChangeListener sc w = Inr w' \<and> hashChangeListener sc w' = Inr w'"
  proof -
    from total obtain b w' where l: "loadFromUrl sc w = Inr (b, w')" by blast
    with idem obtain b' where "loadFromUrl sc w' = Inr (b', w')" by blast
    with l show ?thesis by (simp add: hashChangeListener_def)
  qed
  have no_key': "url_fragment (location w) = None \<or> url_fragment (location w) = Some []
        \<or> keyFromUrl w = None \<or> keyFromUrl w = Some []
      \<longrightarrow> loadFromUrl sc w = Inr (False, w)"
    using no_key by blast
  have idem': "\<forall>b w'. loadFromUrl sc w = Inr (b, w') \<longrightarrow>
         (\<exists>b'. loadFromUrl sc w' = Inr (b', w'))
       \<and> loadFromUrl sc (w'\<lparr>location := location w\<rparr>) = Inr (b, w')"
    using idem by blast
  show ?thesis by (intro conjI) (fact total no_key' idem' listener)+
qed

section \<open>Share link\<close>

lemma ascii_Cons [simp]: "ascii (c # s) \<longleftrightarrow> unat c < 128 \<and> ascii s"
  by (simp add: ascii_def)

lemma ascii_Nil [simp]: "ascii []"
  by (simp add: ascii_def)

lemma ascii_append [simp]: "ascii (s @ t) \<longleftrightarrow> ascii s \<and> ascii t"
  by (auto simp: ascii_def)

lemma not_surrogate_ascii: "unat c < 128 \<Longrightarrow> \<not> is_high_surrogate c \<and> \<not> is_low_surrogate c"
  by (simp add: is_high_surrogate_def is_low_surrogate_def)

lemma to_scalars_ascii: "ascii s \<Longrightarrow> to_scalars s = map unat s"
  by (induction s rule: to_scalars.induct) (simp_all add: not_surrogate_ascii)

lemma isWellFormed_ascii: "ascii s \<Longrightarrow> isWellFormed s"
  by (induction s rule: isWellFormed.induct) (simp_all add: not_surrogate_ascii)


lemma unat_low_byte: "unat c < 128 \<Longrightarrow> unat (low_byte c) = unat c"
  unfolding low_byte_def by (intro unat_byte_of) simp

lemma TextEncoder_ascii: "ascii s \<Longrightarrow> TextEncoder_encode s = map low_byte s"
proof -
  assume a: "ascii s"
  have "concat (map utf8_bytes (map unat s)) = map low_byte s"
    using a by (induction s) (simp_all add: utf8_bytes_def low_byte_def)
  with a show ?thesis by (simp add: TextEncoder_encode_def to_scalars_ascii)
qed

lemma utf8_decode_ascii_bytes:
  "ascii s \<Longrightarrow> utf8_decode 0 0 128 191 (map low_byte s) = map unat s"
  by (induction s) (simp_all add: unat_low_byte utf8_first_def)

lemma from_scalars_units: "from_scalars (map unat s) = s"
proof (induction s)
  case Nil
  then show ?case by (simp add: from_scalars_def)
next
  case (Cons c s)
  then show ?case using unat_unit_lt [of c] by (simp add: from_scalars_Cons unit_of_unat)
qed

lemma decode_low_bytes: "ascii s \<Longrightarrow> utf8_decode_without_bom (map low_byte s) = s"
  by (simp add: utf8_decode_without_bom_def utf8_decode_ascii_bytes from_scalars_units)



lemma encodeURIComponent_ascii:
  assumes "ascii s"
  shows "encodeURIComponent s = Inr (concat (map uri_escape s))"
proof -
  let ?f = "\<lambda>cp. if uri_unreserved cp then [unit_of cp]
                 else concat (map percent_encode_byte (utf8_bytes cp))"
  have m: "map (?f \<circ> unat) s = map uri_escape s"
    using assms
    by (induction s) (simp_all add: uri_escape_def unit_of_unat utf8_bytes_def low_byte_def)
  have "concat (map ?f (map unat s)) = concat (map uri_escape s)"
    by (simp only: map_map m)
  moreover have "encodeURIComponent s = Inr (concat (map ?f (map unat s)))"
    using assms by (simp only: encodeURIComponent_def isWellFormed_ascii to_scalars_ascii if_True)
  ultimately show ?thesis by (simp only:)
qed

lemma unat_upper_hex: "d < 16 \<Longrightarrow> unat (upper_hex_digit d) = (if d < 10 then 48 + d else 55 + d)"
  by (auto simp: upper_hex_digit_def intro!: unat_unit_of)

lemma upper_hex_unreserved: "d < 16 \<Longrightarrow> uri_unreserved (unat (upper_hex_digit d))"
  by (auto simp: unat_upper_hex uri_unreserved_def)

text \<open>Every character of an escaped string is unreserved or a percent sign.\<close>

lemma uri_escape_chars:
  assumes "unat c < 128" "x \<in> set (uri_escape c)"
  shows "uri_unreserved (unat x) \<or> x = 37"
proof (cases "uri_unreserved (unat c)")
  case True
  with assms show ?thesis by (simp add: uri_escape_def)
next
  case False
  have "unat (low_byte c) div 16 < 16" "unat (low_byte c) mod 16 < 16"
    using assms(1) by (simp_all add: unat_low_byte)
  then show ?thesis
    using assms(2) False upper_hex_unreserved
    by (auto simp: uri_escape_def percent_encode_byte_def)
qed

lemma escaped_chars:
  assumes "ascii s" "x \<in> set (concat (map uri_escape s))"
  shows "uri_unreserved (unat x) \<or> x = 37"
  using assms uri_escape_chars by (auto simp: ascii_def)

lemma unreserved_lt: "uri_unreserved n \<Longrightarrow> n < 128"
  by (auto simp: uri_unreserved_def)

lemma escaped_ascii: "ascii s \<Longrightarrow> ascii (concat (map uri_escape s))"
proof -
  assume a: "ascii s"
  have "unat x < 128" if "x \<in> set (concat (map uri_escape s))" for x
    using escaped_chars [OF a that] unreserved_lt by auto
  then show ?thesis by (simp add: ascii_def)
qed

lemma percent_decode_other: "b \<noteq> 37 \<Longrightarrow> percent_decode (b # rest) = b # percent_decode rest"
  by (cases rest rule: percent_decode.cases) simp_all

lemma low_byte_eq_iff: "unat c < 128 \<Longrightarrow> low_byte c = n \<longleftrightarrow> unat c = unat n"
  using unat_low_byte [of c] by (metis word_unat_eq_iff)

lemma hex_of_upper:
  assumes "d < 16"
  shows "is_hex_digit (low_byte (upper_hex_digit d))" "hex_value (low_byte (upper_hex_digit d)) = d"
proof -
  have u: "unat (low_byte (upper_hex_digit d)) = (if d < 10 then 48 + d else 55 + d)"
    using assms unat_upper_hex [OF assms] by (auto simp: unat_low_byte)
  show "is_hex_digit (low_byte (upper_hex_digit d))"
    using assms by (auto simp: is_hex_digit_def u)
  show "hex_value (low_byte (upper_hex_digit d)) = d"
    using assms by (auto simp: hex_value_def u)
qed

lemma percent_decode_escape:
  assumes "unat c < 128"
  shows "percent_decode (map low_byte (uri_escape c) @ rest) = low_byte c # percent_decode rest"
proof (cases "uri_unreserved (unat c)")
  case True
  have "unat (low_byte c) \<noteq> 37" using True assms by (auto simp: unat_low_byte uri_unreserved_def)
  then have "low_byte c \<noteq> 37" by auto
  with True show ?thesis by (simp add: uri_escape_def percent_decode_other)
next
  case False
  define n where "n = unat (low_byte c)"
  have n: "n div 16 < 16" "n mod 16 < 16" using assms by (simp_all add: n_def unat_low_byte)
  have p: "low_byte 37 = 37" by (simp add: low_byte_def byte_of_def)
  have "percent_decode (map low_byte (uri_escape c) @ rest)
      = byte_of (n div 16 * 16 + n mod 16) # percent_decode rest"
    using False hex_of_upper [OF n(1)] hex_of_upper [OF n(2)]
    by (simp add: uri_escape_def percent_encode_byte_def p n_def)
  also have "n div 16 * 16 + n mod 16 = n" by simp
  finally show ?thesis by (simp add: n_def byte_of_unat)
qed

lemma percent_decode_escaped:
  "ascii s \<Longrightarrow> percent_decode (map low_byte (concat (map uri_escape s))) = map low_byte s"
  by (induction s) (simp_all add: percent_decode_escape)


lemma js_key_eq: "js ''#key='' = [35, 107, 101, 121, 61]" "js ''key='' = [107, 101, 121, 61]"
  "js ''key'' = [107, 101, 121]"
  by (simp_all add: js_def)

lemma fragment_percent_encode_id:
  assumes "\<And>c. c \<in> set t \<Longrightarrow> unat c < 128 \<and> \<not> in_fragment_set (unat c)"
  shows "fragment_percent_encode t = t"
proof -
  have a: "ascii t" using assms by (simp add: ascii_def)
  have "concat (map ((\<lambda>cp. if in_fragment_set cp then concat (map percent_encode_byte (utf8_bytes cp))
            else [unit_of cp]) \<circ> unat) t) = t"
    using assms by (induction t) (simp_all add: unit_of_unat)
  then show ?thesis by (simp add: fragment_percent_encode_def to_scalars_ascii [OF a])
qed

lemma escaped_not_special:
  fixes x :: code_unit
  assumes "uri_unreserved (unat x) \<or> x = 37"
  shows "unat x < 128" "\<not> in_fragment_set (unat x)" "x \<noteq> 9" "x \<noteq> 10" "x \<noteq> 13"
    "x \<noteq> 38" "x \<noteq> 61" "x \<noteq> 43"
  using assms by (auto simp: uri_unreserved_def in_fragment_set_def)

lemma set_hash_key:
  assumes "ascii s"
  shows "URL_set_hash (js ''#key='' @ concat (map uri_escape s)) url
       = url\<lparr>url_fragment := Some (js ''key='' @ concat (map uri_escape s))\<rparr>"
proof -
  let ?enc = "concat (map uri_escape s)"
  have chars: "uri_unreserved (unat x) \<or> x = 37" if "x \<in> set ?enc" for x
    using escaped_chars [OF assms that] .
  have f: "filter (\<lambda>c. c \<noteq> 9 \<and> c \<noteq> 10 \<and> c \<noteq> 13) (js ''key='' @ ?enc) = js ''key='' @ ?enc"
    using chars escaped_not_special(3,4,5) by (auto simp: js_key_eq filter_id_conv)
  have "unat c < 128 \<and> \<not> in_fragment_set (unat c)" if "c \<in> set (js ''key='' @ ?enc)" for c
    using that chars escaped_not_special(1,2) by (auto simp: js_key_eq in_fragment_set_def)
  then have "fragment_percent_encode (js ''key='' @ ?enc) = js ''key='' @ ?enc"
    by (rule fragment_percent_encode_id)
  then show ?thesis
    using f by (simp add: URL_set_hash_def js_key_eq Let_def)
qed

lemma split_on_absent: "sep \<notin> set xs \<Longrightarrow> split_on sep xs = [xs]"
  by (induction xs) auto

lemma low_byte_neq:
  assumes "unat x < 128" "x \<noteq> n" "unat n < 128"
  shows "low_byte x \<noteq> low_byte n"
proof
  assume "low_byte x = low_byte n"
  then have "unat (low_byte x) = unat (low_byte n)" by simp
  then have "unat x = unat n" using assms by (simp add: unat_low_byte)
  then show False using assms(2) by (simp add: word_unat_eq_iff)
qed

lemma low_byte_numerals:
  "low_byte 38 = 38" "low_byte 61 = 61" "low_byte 43 = 43" "low_byte 107 = 107"
  "low_byte 101 = 101" "low_byte 121 = 121"
  by (simp_all add: low_byte_def byte_of_def)

lemma escaped_bytes_not:
  assumes "ascii s" "b \<in> set (map low_byte (concat (map uri_escape s)))"
  shows "b \<noteq> 38" "b \<noteq> 61" "b \<noteq> 43"
proof -
  from assms(2) obtain x where x: "x \<in> set (concat (map uri_escape s))" "b = low_byte x" by auto
  note c = escaped_chars [OF assms(1) x(1)]
  show "b \<noteq> 38" using low_byte_neq [of x 38] escaped_not_special(1,6) [OF c] x(2)
    by (simp add: low_byte_numerals)
  show "b \<noteq> 61" using low_byte_neq [of x 61] escaped_not_special(1,7) [OF c] x(2)
    by (simp add: low_byte_numerals)
  show "b \<noteq> 43" using low_byte_neq [of x 43] escaped_not_special(1,8) [OF c] x(2)
    by (simp add: low_byte_numerals)
qed

lemma searchParams_key:
  assumes "ascii s"
  shows "URLSearchParams (js ''key='' @ concat (map uri_escape s)) = [(js ''key'', s)]"
proof -
  let ?enc = "concat (map uri_escape s)"
  let ?bytes = "map low_byte ?enc"
  have a: "ascii (js ''key='' @ ?enc)" using escaped_ascii [OF assms] by (simp add: js_key_eq)
  have enc: "TextEncoder_encode (js ''key='' @ ?enc) = [107, 101, 121, 61] @ ?bytes"
    by (simp add: TextEncoder_ascii [OF a]) (simp add: js_key_eq low_byte_numerals)
  have no: "38 \<notin> set ?bytes" "61 \<notin> set ?bytes" "43 \<notin> set ?bytes"
    using escaped_bytes_not [OF assms] by blast+
  have sp: "split_on 38 ([107, 101, 121, 61] @ ?bytes) = [[107, 101, 121, 61] @ ?bytes]"
    using no(1) by (intro split_on_absent) simp
  have name: "urlencoded_component [107, 101, 121] = js ''key''"
    by (simp add: urlencoded_component_def utf8_decode_without_bom_def utf8_first_def
        from_scalars_def unit_of_def js_key_eq)
  have plus: "map (\<lambda>b. if b = 43 then 32 else b) ?bytes = ?bytes"
    using no(3) by (intro map_idI) auto
  have val: "urlencoded_component ?bytes = s"
    unfolding urlencoded_component_def plus
    by (simp only: percent_decode_escaped [OF assms] decode_low_bytes [OF assms])
  have dw: "dropWhile (\<lambda>b. b \<noteq> 61) ([107, 101, 121, 61] @ ?bytes) = 61 # ?bytes"
    "takeWhile (\<lambda>b. b \<noteq> 61) ([107, 101, 121, 61] @ ?bytes) = [107, 101, 121]"
    by simp_all
  define piece where "piece = [107, 101, 121, 61] @ ?bytes"
  have init: "(if js ''key='' @ ?enc \<noteq> [] \<and> hd (js ''key='' @ ?enc) = 63
               then tl (js ''key='' @ ?enc) else js ''key='' @ ?enc) = js ''key='' @ ?enc"
    by (simp add: js_key_eq)
  have "URLSearchParams (js ''key='' @ ?enc) = urlencoded_parse piece"
    by (simp only: URLSearchParams_def init enc piece_def)
  also have "\<dots> = [(urlencoded_component (takeWhile (\<lambda>b. b \<noteq> 61) piece),
                      urlencoded_component (drop 1 (dropWhile (\<lambda>b. b \<noteq> 61) piece)))]"
    using sp by (simp add: urlencoded_parse_def piece_def [symmetric]) (simp add: piece_def)
  also have "\<dots> = [(js ''key'', s)]"
    unfolding piece_def dw by (simp add: name val)
  finally show ?thesis .
qed

lemma those_Some_set: "those xs = Some ys \<Longrightarrow> None \<notin> set xs"
  by (induction xs arbitrary: ys) (auto split: option.splits)

lemma b64_value_ascii: "b64_value c \<noteq> None \<Longrightarrow> unat c < 128"
  by (auto simp: b64_value_def b64_index_def split: if_splits)

lemma set_strip_padding: "set f \<subseteq> set (strip_padding f) \<union> {61}"
proof -
  have bl: "set xs \<subseteq> set (butlast xs) \<union> {last xs}" if "xs \<noteq> []" for xs :: jsstring
    using that by (metis append_butlast_last_id list.set(1,2) set_append subset_refl Un_insert_right sup_bot_right)
  show ?thesis
  proof (cases "length f mod 4 = 0 \<and> f \<noteq> [] \<and> last f = 61")
    case False
    then show ?thesis by (auto simp: strip_padding_def)
  next
    case True
    then have 1: "set f \<subseteq> set (butlast f) \<union> {61}" using bl [of f] by auto
    show ?thesis
    proof (cases "butlast f \<noteq> [] \<and> last (butlast f) = 61")
      case False
      with True 1 show ?thesis by (auto simp: strip_padding_def)
    next
      case t: True
      then have "set (butlast f) \<subseteq> set (butlast (butlast f)) \<union> {61}"
        using bl [of "butlast f"] by auto
      with True t 1 show ?thesis by (auto simp: strip_padding_def)
    qed
  qed
qed

lemma atob_ascii:
  assumes "atob s = Inr r"
  shows "ascii s"
proof -
  let ?f = "filter (\<lambda>c. \<not> is_ascii_whitespace c) s"
  from assms obtain vs where "those (map b64_value (strip_padding ?f)) = Some vs"
    by (auto simp: atob_def Let_def split: if_splits option.splits)
  then have "None \<notin> set (map b64_value (strip_padding ?f))" by (rule those_Some_set)
  then have d: "unat c < 128" if "c \<in> set (strip_padding ?f)" for c
    using that b64_value_ascii [of c] by force
  have "unat c < 128" if "c \<in> set s" for c
  proof (cases "is_ascii_whitespace c")
    case True
    then show ?thesis by (auto simp: is_ascii_whitespace_def)
  next
    case False
    with that have "c \<in> set ?f" by simp
    then have "c \<in> set (strip_padding ?f) \<or> c = 61" using set_strip_padding [of ?f] by auto
    then show ?thesis using d by auto
  qed
  then show ?thesis by (simp add: ascii_def)
qed

lemma importKey_ascii: "importKey ks = Inr key \<Longrightarrow> ascii ks"
  by (auto simp: importKey_def split: sum.splits intro: atob_ascii)

lemma URL_href_set_hash_key:
  assumes "ascii s"
  shows "URL_href (URL_set_hash (js ''#key='' @ concat (map uri_escape s)) url)
       = url_base url @ js ''#key='' @ concat (map uri_escape s)"
  unfolding set_hash_key [OF assms] by (simp add: URL_href_def js_key_eq)

text \<open>
  Claim C7 (amended). In every reachable state, \<open>getShareUrl\<close> throws the no-key error
  exactly when no key is held. Otherwise it returns the page URL with the fragment
  \<open>key=\<close> followed by the URI-encoded key string the manager holds; parsing that fragment
  as \<open>URLSearchParams\<close> gives the single field \<open>key\<close> with that key string, which imports
  to the held key. The result is the spec's \<open>shareableLink\<close> whenever the held key string is
  what \<open>exportKey\<close> gives for the key.
\<close>

theorem getShareUrl_contract:
  assumes "reachable sc w"
  shows "(getShareUrl w = Inl NoKeyAvailable \<longleftrightarrow> km_key w = None)
       \<and> (\<forall>key. km_key w = Some key \<longrightarrow>
            (\<exists>keyString encoded.
                km_keyString w = Some keyString
              \<and> importKey keyString = Inr key
              \<and> encodeURIComponent keyString = Inr encoded
              \<and> getShareUrl w = Inr (url_base (location w) @ js ''#key='' @ encoded)
              \<and> URLSearchParams (js ''key='' @ encoded) = [(js ''key'', keyString)]
              \<and> (exportKey key = Inr keyString \<longrightarrow> getShareUrl w = shareableLink_spec w)))"
proof (cases "km_key w")
  case None
  then have "km_keyString w = None" using reachable_fields [OF assms] by simp
  with None show ?thesis by (simp add: getShareUrl_def)
next
  case (Some key)
  with reachable_fields [OF assms] obtain ks where ks: "km_keyString w = Some ks"
    "importKey ks = Inr key"
    by blast
  have a: "ascii ks" using ks(2) by (rule importKey_ascii)
  have ne: "ks \<noteq> []" using ks(2) by (rule importKey_nonempty)
  let ?enc = "concat (map uri_escape ks)"
  have e: "encodeURIComponent ks = Inr ?enc" using a by (rule encodeURIComponent_ascii)
  have g: "getShareUrl w = Inr (url_base (location w) @ js ''#key='' @ ?enc)"
    using ks(1) ne e by (simp add: getShareUrl_def URL_href_set_hash_key [OF a])
  have p: "URLSearchParams (js ''key='' @ ?enc) = [(js ''key'', ks)]"
    using a by (rule searchParams_key)
  have s: "getShareUrl w = shareableLink_spec w" if "exportKey key = Inr ks"
    using that Some e g by (simp add: shareableLink_spec_def)
  from Some ks e g p s show ?thesis by auto
qed

lemma replicate_32: "replicate 32 x = [x,x,x,x,x,x,x,x, x,x,x,x,x,x,x,x, x,x,x,x,x,x,x,x, x,x,x,x,x,x,x,x]"
  by (simp add: numeral_eq_Suc)

lemma key0_sextets: "map b64_char (b64_sextets (replicate 32 7)) = unpadded_key"
  by (simp add: replicate_32 unpadded_key_def js_def b64_char_def b64_code_def unit_of_def)

lemma atob_unpadded: "atob (map b64_char (b64_sextets bs)) = Inr (fromCharCode bs)"
proof -
  let ?xs = "map b64_char (b64_sextets bs)"
  have ws: "filter (\<lambda>c. \<not> is_ascii_whitespace c) ?xs = ?xs"
    by (auto simp: filter_id_conv b64_char_not_ws)
  have m3: "length bs mod 3 = 0 \<or> length bs mod 3 = 1 \<or> length bs mod 3 = 2" by linarith
  have n1: "length ?xs mod 4 \<noteq> 1" using m3 by (auto simp: length_sextets)
  have "?xs \<noteq> [] \<Longrightarrow> last ?xs \<noteq> 61"
    by (metis (no_types, lifting) b64_char_not_pad imageE last_in_set list.set_map)
  then have sp: "strip_padding ?xs = ?xs" by (auto simp: strip_padding_def)
  show ?thesis
    unfolding atob_def ws sp Let_def using n1 by (simp add: those_b64 b64_bytes_sextets)
qed

lemma importKey_unpadded: "importKey unpadded_key = Inr key0"
  using atob_unpadded [of "replicate 32 7"]
  by (simp add: key0_sextets importKey_def charCodes_fromCharCode subtle_importKey_def key0_def
      generateEncryptionKey_def)

lemma exportKey_key0: "exportKey key0 = Inr padded_key"
proof -
  have "exportKey key0 = Inr (unpadded_key @ [61])"
    using exportKey_generated(1) [of "replicate 32 7"] by (simp add: key0_def key0_sextets)
  then show ?thesis by (simp add: padded_key_def unpadded_key_def js_def)
qed

lemma escape_unpadded: "concat (map uri_escape unpadded_key) = unpadded_key"
  by (simp add: unpadded_key_def js_def uri_escape_def uri_unreserved_def)

lemma ascii_unpadded: "ascii unpadded_key"
  by (simp add: unpadded_key_def js_def)

lemma keyFromUrl_link: "keyFromUrl (new_KeyManager st link_loc) = Some unpadded_key"
proof -
  have "URLSearchParams (js ''key='' @ unpadded_key) = [(js ''key'', unpadded_key)]"
    using searchParams_key [OF ascii_unpadded] by (simp add: escape_unpadded)
  moreover have "drop 1 (URL_hash link_loc) = js ''key='' @ unpadded_key"
    by (simp add: URL_hash_def link_loc_def unpadded_key_def js_def)
  ultimately show ?thesis
    by (simp add: keyFromUrl_def new_KeyManager_def searchParams_get_def)
qed

lemma adopt_link:
  assumes "st \<noteq> Denied"
  shows "\<exists>w1. setKey sc unpadded_key (new_KeyManager st link_loc) = (Inr (), w1)
     \<and> loadFromUrl sc (new_KeyManager st link_loc)
         = Inr (True, w1\<lparr>keyLoadedFromExternal := True, location := URL_set_hash [] link_loc\<rparr>)
     \<and> km_key w1 = Some key0 \<and> km_keyString w1 = Some unpadded_key"
proof -
  let ?w = "new_KeyManager st link_loc"
  have nd: "sessionStorage ?w \<noteq> Denied" using assms by (simp add: new_KeyManager_def)
  obtain w1 where w1: "setKey sc unpadded_key ?w = (Inr (), w1)"
    using setKey_ok [OF importKey_unpadded nd] by blast
  have loc: "location w1 = link_loc" using setKey_fields(6) [OF w1] by (simp add: new_KeyManager_def)
  have h: "URL_hash (location ?w) \<noteq> [] \<and> hd (URL_hash (location ?w)) = 35"
    by (simp add: new_KeyManager_def URL_hash_def link_loc_def js_def)
  have ne: "unpadded_key \<noteq> []" by (simp add: unpadded_key_def js_def)
  have "loadFromUrl sc ?w
      = Inr (True, w1\<lparr>keyLoadedFromExternal := True, location := URL_set_hash [] link_loc\<rparr>)"
    using h ne w1 loc by (simp add: loadFromUrl_def keyFromUrl_link history_replaceState_def)
  moreover have "km_key w1 = Some key0" "km_keyString w1 = Some unpadded_key"
    using setKey_fields(1,2) [OF w1] importKey_unpadded by auto
  ultimately show ?thesis using w1 by blast
qed

text \<open>A manager just constructed, and the same after generating a key.\<close>

theorem getShareUrl_contract_witness:
  "reachable toy_subtle (new_KeyManager Missing loc0)
   \<and> getShareUrl (new_KeyManager Missing loc0) = Inl NoKeyAvailable
   \<and> (\<exists>w'. generateNewKey toy_subtle (replicate 32 7) (new_KeyManager Missing loc0) = (Inr (), w')
         \<and> reachable toy_subtle w'
         \<and> km_key w' = Some key0
         \<and> getShareUrl w' = Inr (js ''https://tinybox.example/#key=BwcHBwcHBwcHBwcHBwcHBwcHBwcHBwcHBwcHBwcHBwc%3D'')
         \<and> getShareUrl w' = shareableLink_spec w')"
proof -
  let ?w = "new_KeyManager Missing loc0"
  have r: "reachable toy_subtle ?w" by (rule reachable.constructed)
  have n: "getShareUrl ?w = Inl NoKeyAvailable"
    using getShareUrl_contract [OF r] by (simp add: new_KeyManager_def)
  have l: "length (replicate 32 (7 :: byte)) = 32" by simp
  have nd: "sessionStorage ?w \<noteq> Denied" by (simp add: new_KeyManager_def)
  obtain w' where g: "generateNewKey toy_subtle (replicate 32 7) ?w = (Inr (), w')"
    "km_key w' = Some key0"
    "setKey toy_subtle (map b64_char (b64_sextets (replicate 32 7)) @ [61]) ?w = (Inr (), w')"
    using generateNewKey_ok [OF l nd, of toy_subtle] by (auto simp: key0_def)
  have r': "reachable toy_subtle w'"
    using reachable_generateNewKey [OF r, of "replicate 32 7"] g(1) by simp
  have ks: "km_keyString w' = Some padded_key"
    using setKey_fields(2) [OF g(3)] by (simp add: key0_sextets padded_key_def unpadded_key_def js_def)
  have loc: "location w' = loc0" using setKey_fields(6) [OF g(3)] by (simp add: new_KeyManager_def)
  from getShareUrl_contract [OF r'] g(2) obtain keyString encoded where
    c: "km_keyString w' = Some keyString" "encodeURIComponent keyString = Inr encoded"
      "getShareUrl w' = Inr (url_base (location w') @ js ''#key='' @ encoded)"
      "exportKey key0 = Inr keyString \<longrightarrow> getShareUrl w' = shareableLink_spec w'"
    by blast
  have k: "keyString = padded_key" using c(1) ks by simp
  have "encodeURIComponent padded_key = Inr (js ''BwcHBwcHBwcHBwcHBwcHBwcHBwcHBwcHBwcHBwcHBwc%3D'')"
    by (simp add: encodeURIComponent_ascii padded_key_def js_def uri_escape_def uri_unreserved_def
        percent_encode_byte_def low_byte_def upper_hex_digit_def byte_of_def unit_of_def)
  with c(2) k have e: "encoded = js ''BwcHBwcHBwcHBwcHBwcHBwcHBwcHBwcHBwcHBwcHBwc%3D''" by simp
  have u: "getShareUrl w' = Inr (js ''https://tinybox.example/#key=BwcHBwcHBwcHBwcHBwcHBwcHBwcHBwcHBwcHBwcHBwc%3D'')"
    using c(3) by (simp add: e loc loc0_def js_def)
  have s: "getShareUrl w' = shareableLink_spec w'" using c(4) k exportKey_key0 by simp
  from r n g(1,2) r' u s show ?thesis by blast
qed

text \<open>
  The claim as stated (the fragment encodes \<open>serialize(secret)\<close>) fails for a key adopted
  from a link that carries it without the final \<open>=\<close>: \<open>atob\<close> accepts the string, the
  manager keeps it as given, and the share URL repeats it, while \<open>exportKey\<close> of the held
  key ends in \<open>=\<close>.
\<close>

theorem getShareUrl_not_serialize_counterexample:
  "(case loadFromUrl toy_subtle (new_KeyManager Missing link_loc) of
      Inl e \<Rightarrow> False
    | Inr (adopted, w') \<Rightarrow>
        adopted
      \<and> km_key w' = Some key0
      \<and> exportKey key0 = Inr padded_key
      \<and> getShareUrl w'
          = Inr (js ''https://tinybox.example/#key=BwcHBwcHBwcHBwcHBwcHBwcHBwcHBwcHBwcHBwcHBwc'')
      \<and> shareableLink_spec w'
          = Inr (js ''https://tinybox.example/#key=BwcHBwcHBwcHBwcHBwcHBwcHBwcHBwcHBwcHBwcHBwc%3D''))"
proof -
  obtain w1 where w1: "loadFromUrl toy_subtle (new_KeyManager Missing link_loc)
         = Inr (True, w1\<lparr>keyLoadedFromExternal := True, location := URL_set_hash [] link_loc\<rparr>)"
      "km_key w1 = Some key0" "km_keyString w1 = Some unpadded_key"
    using adopt_link [of Missing toy_subtle] by auto
  let ?w' = "w1\<lparr>keyLoadedFromExternal := True, location := URL_set_hash [] link_loc\<rparr>"
  have base: "url_base (URL_set_hash [] link_loc) = js ''https://tinybox.example/''"
    by (simp add: URL_set_hash_def link_loc_def)
  have ne: "unpadded_key \<noteq> []" by (simp add: unpadded_key_def js_def)
  have href: "URL_href (URL_set_hash (js ''#key='' @ unpadded_key) url)
      = url_base url @ js ''#key='' @ unpadded_key" for url
    using URL_href_set_hash_key [OF ascii_unpadded, of url] by (simp add: escape_unpadded)
  have "getShareUrl ?w' = Inr (js ''https://tinybox.example/'' @ js ''#key='' @ unpadded_key)"
    using w1(3) ne
    by (simp add: getShareUrl_def encodeURIComponent_ascii [OF ascii_unpadded]
        escape_unpadded href base)
  then have g: "getShareUrl ?w'
      = Inr (js ''https://tinybox.example/#key=BwcHBwcHBwcHBwcHBwcHBwcHBwcHBwcHBwcHBwcHBwc'')"
    by (simp add: unpadded_key_def js_def)
  have "encodeURIComponent padded_key = Inr (js ''BwcHBwcHBwcHBwcHBwcHBwcHBwcHBwcHBwcHBwcHBwc%3D'')"
    by (simp add: encodeURIComponent_ascii padded_key_def js_def uri_escape_def uri_unreserved_def
        percent_encode_byte_def low_byte_def upper_hex_digit_def byte_of_def unit_of_def)
  then have s: "shareableLink_spec ?w'
      = Inr (js ''https://tinybox.example/#key=BwcHBwcHBwcHBwcHBwcHBwcHBwcHBwcHBwcHBwcHBwc%3D'')"
    using w1(2) by (simp add: shareableLink_spec_def exportKey_key0 base) (simp add: js_def)
  show ?thesis using w1(1,2) g s exportKey_key0 by simp
qed

text \<open>A location without fragment, and one that carries a key.\<close>

theorem loadFromUrl_safe_witness:
  "url_fragment (location (new_KeyManager Missing loc0)) = None
   \<and> loadFromUrl toy_subtle (new_KeyManager Missing loc0) = Inr (False, new_KeyManager Missing loc0)
   \<and> (\<exists>w'. loadFromUrl toy_subtle (new_KeyManager Missing link_loc) = Inr (True, w')
         \<and> km_key w' = Some key0
         \<and> loadFromUrl toy_subtle w' = Inr (False, w')
         \<and> loadFromUrl toy_subtle (w'\<lparr>location := link_loc\<rparr>) = Inr (True, w'))"
proof -
  have f: "url_fragment (location (new_KeyManager Missing loc0)) = None"
    by (simp add: new_KeyManager_def loc0_def)
  have a: "loadFromUrl toy_subtle (new_KeyManager Missing loc0) = Inr (False, new_KeyManager Missing loc0)"
    using loadFromUrl_safe [of toy_subtle "new_KeyManager Missing loc0"] f by blast
  obtain w1 where w1: "loadFromUrl toy_subtle (new_KeyManager Missing link_loc)
         = Inr (True, w1\<lparr>keyLoadedFromExternal := True, location := URL_set_hash [] link_loc\<rparr>)"
      "km_key w1 = Some key0"
    using adopt_link [of Missing toy_subtle] by auto
  let ?w' = "w1\<lparr>keyLoadedFromExternal := True, location := URL_set_hash [] link_loc\<rparr>"
  have i: "(\<exists>b'. loadFromUrl toy_subtle ?w' = Inr (b', ?w'))
       \<and> loadFromUrl toy_subtle (?w'\<lparr>location := location (new_KeyManager Missing link_loc)\<rparr>)
           = Inr (True, ?w')"
    using loadFromUrl_safe [of toy_subtle "new_KeyManager Missing link_loc"] w1(1) by blast
  have "url_fragment (location ?w') = None" by simp
  then have "loadFromUrl toy_subtle ?w' = Inr (False, ?w')"
    using loadFromUrl_safe [of toy_subtle ?w'] by blast
  moreover have "loadFromUrl toy_subtle (?w'\<lparr>location := link_loc\<rparr>) = Inr (True, ?w')"
    using i by (simp add: new_KeyManager_def)
  moreover have "km_key ?w' = Some key0" using w1(2) by simp
  ultimately show ?thesis using f a w1(1) by blast
qed

lemma keyFromUrl_at_link: "location w = link_loc \<Longrightarrow> keyFromUrl w = Some unpadded_key"
proof -
  assume "location w = link_loc"
  then have "keyFromUrl w = keyFromUrl (new_KeyManager Missing link_loc)"
    by (simp add: keyFromUrl_def new_KeyManager_def)
  then show ?thesis by (simp add: keyFromUrl_link)
qed



lemma generated_key_sextets: "map b64_char (b64_sextets (replicate 32 9)) @ [61] = generated_key"
  by (simp add: replicate_32 generated_key_def js_def b64_char_def b64_code_def unit_of_def)

lemma importKey_generated_key: "importKey generated_key = Inr (generateEncryptionKey (replicate 32 9))"
  using exportKey_generated(2) [of "replicate 32 9"] by (simp add: generated_key_sextets)

lemma keys_differ: "generateEncryptionKey (replicate 32 9) \<noteq> key0"
  by (simp add: key0_def generateEncryptionKey_def)

lemma toy_hash:
  assumes "ascii s"
  shows "generateKeyHash toy_subtle s = hex2 (of_nat (length s)) @ js ''abcdef''"
  by (simp add: generateKeyHash_hex2 TextEncoder_ascii [OF assms] toy_subtle_def hex2_def
      hex_digit_def js_def unit_of_def)

lemma toy_hashes_differ:
  "generateKeyHash toy_subtle generated_key \<noteq> generateKeyHash toy_subtle unpadded_key"
proof -
  have a: "ascii generated_key" using importKey_generated_key by (rule importKey_ascii)
  have "length generated_key = 44" "length unpadded_key = 43"
    by (simp_all add: generated_key_def unpadded_key_def js_def)
  then show ?thesis
    by (simp add: toy_hash [OF a] toy_hash [OF ascii_unpadded] hex2_def hex_digit_def unit_of_def)
qed

text \<open>
  A page reached through a share link: constructed state, the listener adopting the key,
  and the second part of \<open>setKey\<close> following the first.
\<close>

theorem key_manager_invariant_witness:
  "reachable toy_subtle (new_KeyManager Missing link_loc)
   \<and> consistent toy_subtle (new_KeyManager Missing link_loc)
   \<and> (\<exists>w'. hashChangeListener toy_subtle (new_KeyManager Missing link_loc) = Inr w'
         \<and> km_key w' = Some key0
         \<and> km_keyString w' = Some unpadded_key
         \<and> consistent toy_subtle w')
   \<and> (\<exists>w1. setKey_import unpadded_key (new_KeyManager Missing link_loc) = Inr w1
         \<and> reachable toy_subtle w1
         \<and> km_key w1 = Some key0
         \<and> km_keyString w1 = Some unpadded_key
         \<and> importKey unpadded_key = Inr key0
         \<and> consistent toy_subtle (snd (setKey_publish toy_subtle unpadded_key w1)))"
proof -
  let ?w = "new_KeyManager Missing link_loc"
  have r: "reachable toy_subtle ?w" by (rule reachable.constructed)
  have nd: "sessionStorage ?w \<noteq> Denied" by (simp add: new_KeyManager_def)
  obtain w1 where w1: "loadFromUrl toy_subtle ?w
         = Inr (True, w1\<lparr>keyLoadedFromExternal := True, location := URL_set_hash [] link_loc\<rparr>)"
      "km_key w1 = Some key0" "km_keyString w1 = Some unpadded_key"
    using adopt_link [of Missing toy_subtle] by auto
  let ?w' = "w1\<lparr>keyLoadedFromExternal := True, location := URL_set_hash [] link_loc\<rparr>"
  have h: "hashChangeListener toy_subtle ?w = Inr ?w'"
    using w1(1) by (simp add: hashChangeListener_def)
  have c: "consistent toy_subtle ?w"
    using key_manager_invariant [where sc = toy_subtle and st = Missing and loc = link_loc] by blast
  have c': "consistent toy_subtle ?w'"
    using key_manager_invariant [where sc = toy_subtle and w = ?w] c nd h by blast
  let ?v = "?w\<lparr>km_key := Some key0, km_keyString := Some unpadded_key\<rparr>"
  have i: "setKey_import unpadded_key ?w = Inr ?v"
    by (simp add: setKey_import_def importKey_unpadded)
  have rv: "reachable toy_subtle ?v" using r i by (rule reachable.imported)
  have ndv: "sessionStorage ?v \<noteq> Denied" by (simp add: new_KeyManager_def)
  have kv: "km_keyString ?v = Some unpadded_key" "km_key ?v = Some key0" by simp_all
  have p: "consistent toy_subtle (snd (setKey_publish toy_subtle unpadded_key ?v))"
    using key_manager_invariant [where sc = toy_subtle and w = ?v and keyString = unpadded_key]
      rv kv(1) ndv by blast
  have "\<forall>key. km_key ?v = Some key \<longrightarrow>
         (\<exists>keyString. km_keyString ?v = Some keyString \<and> importKey keyString = Inr key)"
    using key_manager_invariant [where sc = toy_subtle and w = ?v] rv by blast
  then have q: "importKey unpadded_key = Inr key0" by simp
  from r c h c' w1(2,3) i rv kv p q show ?thesis by auto
qed

text \<open>
  The claim as stated (the fields are consistent whenever a key is held) fails in three
  runs. First, a rotation: a key has been generated, the user follows a share link in the
  same tab, and the listener's \<open>setKey\<close> has done its first part and waits for the digest;
  the new key is held while \<open>keyHash\<close> and the stores are those of the old key. Second,
  two overlapping calls: \<open>generateNewKey\<close> has done the first part of its \<open>setKey\<close>, the
  user follows the share link, and the listener's \<open>setKey\<close> does its first part before
  the first call completes; the first call then publishes the key of the second with its
  own hash. Third, a page where reading \<open>window.sessionStorage\<close> throws: the listener's
  \<open>setKey\<close> throws after the fields are written and before the stores are set,
  \<open>loadFromUrl\<close> catches the error, and the key is held while the stores are empty.
\<close>

theorem key_manager_rotation_counterexample:
  "(case initialize toy_subtle (replicate 32 9) (new_KeyManager (Present storage_empty) loc0) of
      (Inl e, w1) \<Rightarrow> False
    | (Inr r, w1) \<Rightarrow>
        consistent toy_subtle w1
      \<and> keyFromUrl (w1\<lparr>location := link_loc, history_back := [loc0]\<rparr>) = Some unpadded_key
      \<and> (case setKey_import unpadded_key (w1\<lparr>location := link_loc, history_back := [loc0]\<rparr>) of
           Inl e \<Rightarrow> False
         | Inr w2 \<Rightarrow>
             km_key w2 = Some key0
           \<and> encryptionKeyStore w2 = Some (generateEncryptionKey (replicate 32 9))
           \<and> \<not> consistent toy_subtle w2))
   \<and> exportKey (generateEncryptionKey (replicate 32 9)) = Inr generated_key
   \<and> (case setKey_import generated_key (new_KeyManager (Present storage_empty) loc0) of
        Inl e \<Rightarrow> False
      | Inr wa \<Rightarrow>
          (case setKey_import unpadded_key (wa\<lparr>location := link_loc, history_back := [loc0]\<rparr>) of
             Inl e \<Rightarrow> False
           | Inr wb \<Rightarrow>
               (case setKey_publish toy_subtle generated_key wb of
                  (Inl e, wc) \<Rightarrow> False
                | (Inr u, wc) \<Rightarrow>
                    km_key wc = Some key0
                  \<and> encryptionKeyStore wc = Some key0
                  \<and> km_keyString wc = Some unpadded_key
                  \<and> keyHashStore wc = Some (generateKeyHash toy_subtle generated_key)
                  \<and> \<not> consistent toy_subtle wc)))
   \<and> (case hashChangeListener toy_subtle (new_KeyManager Denied link_loc) of
        Inl e \<Rightarrow> False
      | Inr w' \<Rightarrow>
          km_key w' = Some key0 \<and> encryptionKeyStore w' = None \<and> \<not> consistent toy_subtle w')"
proof -
  have l: "length (replicate 32 (9 :: byte)) = 32" by simp
  let ?w0 = "new_KeyManager (Present storage_empty) loc0"
  have nd: "sessionStorage ?w0 \<noteq> Denied" by (simp add: new_KeyManager_def)
  obtain w1 where g: "generateNewKey toy_subtle (replicate 32 9) ?w0 = (Inr (), w1)"
    "setKey toy_subtle (map b64_char (b64_sextets (replicate 32 9)) @ [61]) ?w0 = (Inr (), w1)"
    using generateNewKey_ok [OF l nd] by blast
  have i: "initialize toy_subtle (replicate 32 9) ?w0 = (Inr Generated, w1)"
    using g(1) new_manager_loads_nothing [where sc = toy_subtle and st = "Present storage_empty"]
    by (simp add: initialize_def)
  have c1: "consistent toy_subtle w1" using g(2) by (rule setKey_consistent)
  have s1: "encryptionKeyStore w1 = Some (generateEncryptionKey (replicate 32 9))"
    using setKey_fields(1) [OF g(2)] exportKey_generated(2) [OF l] by auto
  have k1: "keyFromUrl (w1\<lparr>location := link_loc, history_back := [loc0]\<rparr>) = Some unpadded_key"
    by (rule keyFromUrl_at_link) simp
  let ?w2 = "w1\<lparr>location := link_loc, history_back := [loc0],
      km_key := Some key0, km_keyString := Some unpadded_key\<rparr>"
  have i2: "setKey_import unpadded_key (w1\<lparr>location := link_loc, history_back := [loc0]\<rparr>) = Inr ?w2"
    by (simp add: setKey_import_def importKey_unpadded)
  have n2: "\<not> consistent toy_subtle ?w2"
    using s1 keys_differ by (simp add: consistent_def importKey_unpadded)
  have first: "case initialize toy_subtle (replicate 32 9) ?w0 of
      (Inl e, w1) \<Rightarrow> False
    | (Inr r, w1) \<Rightarrow>
        consistent toy_subtle w1
      \<and> keyFromUrl (w1\<lparr>location := link_loc, history_back := [loc0]\<rparr>) = Some unpadded_key
      \<and> (case setKey_import unpadded_key (w1\<lparr>location := link_loc, history_back := [loc0]\<rparr>) of
           Inl e \<Rightarrow> False
         | Inr w2 \<Rightarrow>
             km_key w2 = Some key0
           \<and> encryptionKeyStore w2 = Some (generateEncryptionKey (replicate 32 9))
           \<and> \<not> consistent toy_subtle w2)"
    using i c1 k1 i2 n2 s1 by simp
  have ex: "exportKey (generateEncryptionKey (replicate 32 9)) = Inr generated_key"
    using exportKey_generated(1) [OF l] by (simp add: generated_key_sextets)
  let ?wa = "?w0\<lparr>km_key := Some (generateEncryptionKey (replicate 32 9)),
      km_keyString := Some generated_key\<rparr>"
  let ?wb = "?wa\<lparr>location := link_loc, history_back := [loc0],
      km_key := Some key0, km_keyString := Some unpadded_key\<rparr>"
  have ia: "setKey_import generated_key ?w0 = Inr ?wa"
    by (simp add: setKey_import_def importKey_generated_key)
  have ib: "setKey_import unpadded_key (?wa\<lparr>location := link_loc, history_back := [loc0]\<rparr>) = Inr ?wb"
    by (simp add: setKey_import_def importKey_unpadded)
  have ne: "unpadded_key \<noteq> []" by (simp add: unpadded_key_def js_def)
  obtain wc where pc: "setKey_publish toy_subtle generated_key ?wb = (Inr (), wc)"
    and fc: "km_key wc = Some key0" "km_keyString wc = Some unpadded_key"
      "km_keyHash wc = Some (generateKeyHash toy_subtle generated_key)"
      "encryptionKeyStore wc = Some key0"
      "keyHashStore wc = Some (generateKeyHash toy_subtle generated_key)"
    using ne
    by (simp add: setKey_publish_def Let_def saveToSessionStorage_def sessionStorage_setItem_def
        new_KeyManager_def storage_empty_def)
  have nc: "\<not> consistent toy_subtle wc"
    using fc toy_hashes_differ by (simp add: consistent_def)
  have second: "case setKey_import generated_key ?w0 of
        Inl e \<Rightarrow> False
      | Inr wa \<Rightarrow>
          (case setKey_import unpadded_key (wa\<lparr>location := link_loc, history_back := [loc0]\<rparr>) of
             Inl e \<Rightarrow> False
           | Inr wb \<Rightarrow>
               (case setKey_publish toy_subtle generated_key wb of
                  (Inl e, wc) \<Rightarrow> False
                | (Inr u, wc) \<Rightarrow>
                    km_key wc = Some key0
                  \<and> encryptionKeyStore wc = Some key0
                  \<and> km_keyString wc = Some unpadded_key
                  \<and> keyHashStore wc = Some (generateKeyHash toy_subtle generated_key)
                  \<and> \<not> consistent toy_subtle wc))"
    using ia ib pc fc nc by simp
  let ?d = "new_KeyManager Denied link_loc"
  let ?d' = "?d\<lparr>km_key := Some key0, km_keyString := Some unpadded_key,
      km_keyHash := Some (generateKeyHash toy_subtle unpadded_key)\<rparr>"
  have sd: "setKey toy_subtle unpadded_key ?d = (Inl SecurityError, ?d')"
    by (simp add: setKey_cases importKey_unpadded new_KeyManager_def)
  have hd: "URL_hash (location ?d) \<noteq> [] \<and> hd (URL_hash (location ?d)) = 35"
    by (simp add: new_KeyManager_def URL_hash_def link_loc_def js_def)
  have "loadFromUrl toy_subtle ?d = Inr (False, ?d')"
    using hd ne sd by (simp add: loadFromUrl_def keyFromUrl_link)
  then have ld: "hashChangeListener toy_subtle ?d = Inr ?d'"
    by (simp add: hashChangeListener_def)
  have "\<not> consistent toy_subtle ?d'"
    by (simp add: consistent_def new_KeyManager_def importKey_unpadded)
  then have third: "case hashChangeListener toy_subtle ?d of
        Inl e \<Rightarrow> False
      | Inr w' \<Rightarrow>
          km_key w' = Some key0 \<and> encryptionKeyStore w' = None \<and> \<not> consistent toy_subtle w'"
    using ld by (simp add: new_KeyManager_def)
  from first ex second third show ?thesis by blast
qed

section \<open>Enumeration: collision tolerance\<close>

lemma decrypt_each_append:
  "decrypt_each sc p key records acc = acc @ concat (map (view_of sc p key) records)"
  by (induction records arbitrary: acc) (simp_all add: view_of_def split: sum.splits)

lemma reconcile_concat: "reconcile sc p records key = concat (map (view_of sc p key) records)"
  by (simp add: reconcile_def decrypt_each_append)

lemma view_of_cases:
  "view_of sc p key r = (if decrypts sc p key r then view_of sc p key r else [])"
  "decrypts sc p key r \<Longrightarrow> \<exists>m. view_of sc p key r = [file_view r m]"
  by (auto simp: view_of_def decrypts_def split: sum.splits)

lemma reconcile_ids:
  "map (\<lambda>v. (info_id v, info_uploadedAt v)) (reconcile sc p records key)
     = map (\<lambda>r. (file_id r, uploadedAt r)) (filter (decrypts sc p key) records)"
proof (induction records)
  case Nil
  then show ?case by (simp add: reconcile_concat)
next
  case (Cons r records)
  show ?case
  proof (cases "decrypts sc p key r")
    case True
    then obtain m where "view_of sc p key r = [file_view r m]" using view_of_cases(2) by blast
    with True Cons show ?thesis by (simp add: reconcile_concat file_view_def)
  next
    case False
    then have "view_of sc p key r = []" using view_of_cases(1) [of sc p key r] by simp
    with False Cons show ?thesis by (simp add: reconcile_concat)
  qed
qed

lemma sorted_desc_filter:
  "sorted_wrt (\<lambda>a b. f b \<le> (f a :: nat)) xs \<Longrightarrow> sorted_wrt (\<lambda>a b. f b \<le> f a) (filter P xs)"
  by (induction xs) auto

lemma findMany_sorted:
  "findMany db keyHash = Inr rows \<Longrightarrow> sorted_wrt (\<lambda>a b. createdAt b \<le> createdAt a) rows"
proof -
  assume "findMany db keyHash = Inr rows"
  then obtain rs where rows: "rows = rev (sort_key createdAt rs)"
    by (auto simp: findMany_def split: database.splits)
  have "sorted (map createdAt (sort_key createdAt rs))" by simp
  then have "sorted_wrt (\<lambda>a b. createdAt a \<le> createdAt b) (sort_key createdAt rs)"
    by (simp add: sorted_map)
  then show ?thesis unfolding rows by (simp add: sorted_wrt_rev)
qed

lemma list_sorted:
  assumes "actions_list db keyHash = Inr listed"
  shows "sorted_wrt (\<lambda>a b. uploadedAt b \<le> uploadedAt a) listed"
proof -
  from assms obtain rows where rows: "findMany db keyHash = Inr rows"
    and listed: "listed = map (\<lambda>file. \<lparr>file_id = row_id file,
                             encryptedMetadata = row_encryptedMetadata file,
                             metadataIv = row_metadataIv file,
                             fileIv = row_fileIv file,
                             uploadedAt = createdAt file\<rparr>) rows"
    by (auto simp: actions_list_def list_handler_def split: if_splits sum.splits)
  show ?thesis
    unfolding listed using findMany_sorted [OF rows] by (simp add: sorted_wrt_map)
qed

lemma reconcile_sorted:
  assumes "sorted_wrt (\<lambda>a b. uploadedAt b \<le> uploadedAt a) records"
  shows "sorted_wrt (\<lambda>a b. info_uploadedAt b \<le> info_uploadedAt a) (reconcile sc p records key)"
proof -
  have "sorted_wrt (\<lambda>a b. uploadedAt b \<le> uploadedAt a) (filter (decrypts sc p key) records)"
    using assms by (rule sorted_desc_filter)
  then have "sorted_wrt (\<lambda>a b. snd b \<le> snd a)
      (map (\<lambda>r. (file_id r, uploadedAt r)) (filter (decrypts sc p key) records))"
    by (simp add: sorted_wrt_map)
  then have "sorted_wrt (\<lambda>a b. snd b \<le> snd a)
      (map (\<lambda>v. (info_id v, info_uploadedAt v)) (reconcile sc p records key))"
    by (simp only: reconcile_ids)
  then show ?thesis by (simp add: sorted_wrt_map)
qed

text \<open>
  Claim C2. The loop of \<open>loadFiles\<close> gives the empty list for no records; each record
  contributes its view when its metadata decrypts and decodes and nothing when that fails,
  whatever the error, without effect on the records before and after it; the views are those
  of the records that decrypt, in the order of the input. The \<open>list\<close> action returns the
  records newest first, so the views are newest first too. With a key hash and a key held
  and the \<open>list\<close> action answering, \<open>loadFiles\<close> stores exactly these views and shows no
  toast.
\<close>

theorem reconcile_collision_tolerant:
  "reconcile sc p [] key = []
   \<and> reconcile sc p (before @ r # after) key
       = reconcile sc p before key
         @ (case decryptMetadata sc p (encryptedMetadata r) key (metadataIv r) of
              Inl e \<Rightarrow> []
            | Inr m \<Rightarrow> [file_view r m])
         @ reconcile sc p after key
   \<and> map (\<lambda>v. (info_id v, info_uploadedAt v)) (reconcile sc p records key)
       = map (\<lambda>r. (file_id r, uploadedAt r)) (filter (decrypts sc p key) records)
   \<and> (actions_list db keyHash = Inr listed \<longrightarrow>
         sorted_wrt (\<lambda>a b. uploadedAt b \<le> uploadedAt a) listed
       \<and> sorted_wrt (\<lambda>a b. info_uploadedAt b \<le> info_uploadedAt a) (reconcile sc p listed key))
   \<and> (keyHashStore w = Some keyHash \<and> keyHash \<noteq> [] \<and> km_key w = Some key
        \<and> actions_list db keyHash = Inr listed \<longrightarrow>
         loadFiles sc p db w u = u\<lparr>filesStore := reconcile sc p listed key\<rparr>)"
proof -
  have 1: "reconcile sc p [] key = []" by (simp add: reconcile_concat)
  have 2: "reconcile sc p (before @ r # after) key
       = reconcile sc p before key
         @ (case decryptMetadata sc p (encryptedMetadata r) key (metadataIv r) of
              Inl e \<Rightarrow> []
            | Inr m \<Rightarrow> [file_view r m])
         @ reconcile sc p after key"
    by (simp add: reconcile_concat view_of_def)
  have 4: "sorted_wrt (\<lambda>a b. uploadedAt b \<le> uploadedAt a) listed
       \<and> sorted_wrt (\<lambda>a b. info_uploadedAt b \<le> info_uploadedAt a) (reconcile sc p listed key)"
    if "actions_list db keyHash = Inr listed"
    using list_sorted [OF that] reconcile_sorted by blast
  have 5: "loadFiles sc p db w u = u\<lparr>filesStore := reconcile sc p listed key\<rparr>"
    if "keyHashStore w = Some keyHash \<and> keyHash \<noteq> [] \<and> km_key w = Some key
        \<and> actions_list db keyHash = Inr listed"
    using that by (simp add: loadFiles_def)
  from 1 2 reconcile_ids 4 5 show ?thesis by blast
qed

lemma foreign_fails:
  "decryptMetadata toy_subtle toy_parse (encryptedMetadata foreign_record) key0 (metadataIv foreign_record)
     = Inl OperationError"
proof -
  have a: "atob (js ''AAAA'') = Inr [0, 0, 0]"
    by (simp add: atob_def js_def is_ascii_whitespace_def strip_padding_def b64_value_def
        b64_index_def fromCharCode_def byte_of_def Let_def)
  have "subtle_decrypt toy_subtle [0, 0, 0] key0 [0, 0, 0] = Inl OperationError"
    by (simp add: subtle_decrypt_def toy_subtle_def key0_def generateEncryptionKey_def replicate_32)
  then show ?thesis
    by (simp add: decryptMetadata_def decryptText_def foreign_record_def a charCodes_def)
qed

lemma meta_text_plain: "isWellFormed meta_text \<and> (meta_text = [] \<or> hd meta_text \<noteq> 65279)"
  by (simp add: meta_text_def js_def is_high_surrogate_def is_low_surrogate_def)

text \<open>A record of this key between two records of another key that share its index.\<close>

theorem reconcile_collision_tolerant_witness:
  "\<exists>encrypted ivString.
      encryptText toy_subtle iv0 meta_text key0 = Inr (encrypted, ivString)
    \<and> reconcile toy_subtle toy_parse
         [foreign_record,
          \<lparr>file_id = js ''id-2'', encryptedMetadata = encrypted, metadataIv = ivString,
           fileIv = js ''AAAA'', uploadedAt = 5\<rparr>,
          foreign_record] key0
       = [\<lparr>info_id = js ''id-2'', fileName = Value (JString (js ''a.txt'')),
           fileSize = Value (JNumber 10), uploadDate = Date (Value (JString (js ''T0''))),
           info_uploadedAt = 5\<rparr>]
    \<and> reconcile toy_subtle toy_parse [foreign_record, foreign_record] key0 = []"
proof -
  have "\<exists>encrypted ivString.
      encryptText toy_subtle iv0 meta_text key0 = Inr (encrypted, ivString)
    \<and> decryptText toy_subtle encrypted key0 ivString = Inr meta_text"
    using decryptText_encryptText [OF toy_subtle_correct key0_aes_gcm, of iv0 meta_text]
      text_round_trip [of meta_text] meta_text_plain by auto
  then obtain encrypted ivString where
    e: "encryptText toy_subtle iv0 meta_text key0 = Inr (encrypted, ivString)"
    and d: "decryptText toy_subtle encrypted key0 ivString = Inr meta_text"
    by blast
  let ?mine = "\<lparr>file_id = js ''id-2'', encryptedMetadata = encrypted, metadataIv = ivString,
           fileIv = js ''AAAA'', uploadedAt = 5\<rparr>"
  have m: "decryptMetadata toy_subtle toy_parse (encryptedMetadata ?mine) key0 (metadataIv ?mine)
      = Inr \<lparr>meta_fileName = Value (JString (js ''a.txt'')), meta_fileSize = Value (JNumber 10),
             meta_uploadDate = Date (Value (JString (js ''T0'')))\<rparr>"
    by (simp add: decryptMetadata_def d toy_parse_def metadata_property_def) (simp add: js_def)
  have empty: "reconcile toy_subtle toy_parse [] key0 = []"
    using reconcile_collision_tolerant [of toy_subtle toy_parse key0] by blast
  have one: "reconcile toy_subtle toy_parse [foreign_record] key0 = []"
    using reconcile_collision_tolerant [of toy_subtle toy_parse key0 "[]" foreign_record "[]"]
      foreign_fails empty by simp
  have two: "reconcile toy_subtle toy_parse [foreign_record, foreign_record] key0 = []"
    using reconcile_collision_tolerant [of toy_subtle toy_parse key0 "[foreign_record]" foreign_record "[]"]
      foreign_fails empty one by simp
  have three: "reconcile toy_subtle toy_parse [foreign_record, ?mine, foreign_record] key0
      = [file_view ?mine \<lparr>meta_fileName = Value (JString (js ''a.txt'')), meta_fileSize = Value (JNumber 10),
             meta_uploadDate = Date (Value (JString (js ''T0'')))\<rparr>]"
    using reconcile_collision_tolerant [of toy_subtle toy_parse key0 "[foreign_record]" ?mine "[foreign_record]"]
      m one by simp
  from e two three show ?thesis by (simp add: file_view_def)
qed


section \<open>Single-file actions: input validation\<close>

lemma fileId_schema_Inr:
  "fileId_schema uuid input = Inr s \<longleftrightarrow>
     (\<exists>members. input = JObject members \<and> map_of members (js ''fileId'') = Some (JString s) \<and> uuid s)"
  by (auto simp: fileId_schema_def split: json.splits option.splits if_splits)

lemma fileId_schema_Inl:
  "fileId_schema uuid input = Inl e \<Longrightarrow> e = ActionInputError"
  by (auto simp: fileId_schema_def split: json.splits option.splits if_splits)

lemma info_handler_log: "snd (info_handler srv fileId) = [DbFindUnique fileId]"
  by (simp add: info_handler_def split: sum.splits option.splits)

lemma fetch_handler_log:
  "a \<in> set (snd (fetch_handler path_join srv fileId)) \<Longrightarrow>
     a = FsAccess (blob_path path_join srv fileId) \<or> a = FsReadFile (blob_path path_join srv fileId)"
  by (auto simp: fetch_handler_def blob_path_def Let_def split: option.splits file_entry.splits)

text \<open>
  Claim C10. For every input whose \<open>fileId\<close> is not a string that passes the UUID test,
  the \<open>info\<close> and \<open>fetch\<close> actions fail with the input error and without any access to
  the database or the file system; every database lookup of \<open>info\<close> is for an id that
  passes the test, and every path \<open>fetch\<close> touches is
  \<open>path.join(cwd, "uploads", fileId + ".bin")\<close> for such an id.
\<close>

theorem single_file_actions_validate:
  "(\<not> (\<exists>members s. input = JObject members \<and> map_of members (js ''fileId'') = Some (JString s) \<and> uuid s)
      \<longrightarrow> actions_info uuid srv input = (Inl ActionInputError, [])
        \<and> actions_fetch uuid path_join srv input = (Inl ActionInputError, []))
   \<and> (\<forall>a \<in> set (snd (actions_info uuid srv input)). \<exists>fileId. uuid fileId \<and> a = DbFindUnique fileId)
   \<and> (\<forall>a \<in> set (snd (actions_fetch uuid path_join srv input)).
         \<exists>fileId. uuid fileId
           \<and> (a = FsAccess (path_join [srv_cwd srv, js ''uploads'', fileId @ js ''.bin''])
              \<or> a = FsReadFile (path_join [srv_cwd srv, js ''uploads'', fileId @ js ''.bin''])))"
proof (cases "fileId_schema uuid input")
  case (Inl e)
  then have e: "e = ActionInputError" by (rule fileId_schema_Inl)
  with Inl show ?thesis
    by (simp add: actions_info_def actions_fetch_def defineAction_def)
next
  case (Inr s)
  then have v: "\<exists>members. input = JObject members \<and> map_of members (js ''fileId'') = Some (JString s) \<and> uuid s"
    by (simp add: fileId_schema_Inr)
  then have u: "uuid s" by blast
  have i: "snd (actions_info uuid srv input) = [DbFindUnique s]"
    using Inr by (simp add: actions_info_def defineAction_def info_handler_log)
  have f: "a = FsAccess (blob_path path_join srv s) \<or> a = FsReadFile (blob_path path_join srv s)"
    if "a \<in> set (snd (actions_fetch uuid path_join srv input))" for a
    using that Inr fetch_handler_log [of a path_join srv s]
    by (simp add: actions_fetch_def defineAction_def)
  show ?thesis
    using v u i f by (auto simp: blob_path_def)
qed

text \<open>A path-shaped id and a number as \<open>fileId\<close>.\<close>

theorem single_file_actions_validate_witness:
  "actions_info uuid_shape empty_server (JObject [(js ''fileId'', JString (js ''../../etc/passwd''))])
     = (Inl ActionInputError, [])
   \<and> actions_fetch uuid_shape slash_join empty_server
       (JObject [(js ''fileId'', JString (js ''../../etc/passwd''))])
     = (Inl ActionInputError, [])
   \<and> actions_fetch uuid_shape slash_join empty_server (JObject [(js ''fileId'', JNumber 7)])
     = (Inl ActionInputError, [])"
proof -
  have n: "\<not> uuid_shape (js ''../../etc/passwd'')" by (simp add: uuid_shape_def js_def)
  have 1: "\<not> (\<exists>members s. JObject [(js ''fileId'', JString (js ''../../etc/passwd''))] = JObject members
        \<and> map_of members (js ''fileId'') = Some (JString s) \<and> uuid_shape s)"
    using n by auto
  have 2: "\<not> (\<exists>members s. JObject [(js ''fileId'', JNumber 7)] = JObject members
        \<and> map_of members (js ''fileId'') = Some (JString s) \<and> uuid_shape s)"
    by auto
  show ?thesis
    using single_file_actions_validate [of "JObject [(js ''fileId'', JString (js ''../../etc/passwd''))]"
        uuid_shape empty_server slash_join]
      single_file_actions_validate [of "JObject [(js ''fileId'', JNumber 7)]"
        uuid_shape empty_server slash_join] 1 2
    by blast
qed


end
